theory Spec2Isabelle
  imports Complex_Main "HOL-Library.Sublist"
begin

section \<open>Screen-Scout: the crawl controller of \<^verbatim>\<open>src/screenshot.js\<close>\<close>

text \<open>
  \<^verbatim>\<open>src/screenshot.js\<close> holds two revisions of the script. The development embeds the
  second one (lines 154--328, with the \<^verbatim>\<open>followExternal\<close> option): \<^verbatim>\<open>findLinks\<close>
  (lines 242--260) and \<^verbatim>\<open>takeScreenshots\<close> (lines 275--313). The first revision
  (lines 1--153) is the same controller with a \<^verbatim>\<open>findLinks\<close> that keeps every \<^verbatim>\<open>http\<close> link.

  The browser (Puppeteer), the platform's \<^verbatim>\<open>URL\<close> class and the pages of the web are
  not part of the source. They are a parameter of the model, the record \<open>world\<close>:
  for each call the source makes to them, one field says whether the call returns or
  throws, and what it returns. Every such call is assumed to come back (Puppeteer's
  navigation has a timeout), and a page has finitely many anchors. Whether the recursion
  of the script itself comes back is not assumed: \<open>takeScreenshots\<close> below counts the
  nested calls it may still make.
\<close>

subsection \<open>Strings, \<^verbatim>\<open>Set\<close> and \<^verbatim>\<open>parseInt\<close>\<close>

text \<open>\<^verbatim>\<open>s.startsWith(p)\<close>: \<open>p\<close> is a prefix of \<open>s\<close>.\<close>

definition startsWith :: "string \<Rightarrow> string \<Rightarrow> bool" where
  "startsWith s p = prefix p s"

text \<open>
  A JavaScript \<^verbatim>\<open>Set\<close> of strings keeps its elements in insertion order and compares
  them with \<^verbatim>\<open>===\<close>, which on strings is equality of the character sequences. It is a
  list without duplicates: \<^verbatim>\<open>add\<close> is \<open>set_add\<close>, \<^verbatim>\<open>has\<close> is membership, \<^verbatim>\<open>size\<close> is
  the length and \<^verbatim>\<open>Array.from\<close> is the list itself.
\<close>

definition set_add :: "'a \<Rightarrow> 'a list \<Rightarrow> 'a list" where
  "set_add x xs = (if x \<in> set xs then xs else xs @ [x])"

text \<open>
  The values \<^verbatim>\<open>parseInt\<close> and the destructuring of line 284 can produce: an integer,
  \<^verbatim>\<open>NaN\<close>, or \<^verbatim>\<open>undefined\<close> for a missing array element. (The integers are exact here;
  the doubles of JavaScript round above \<open>2^53\<close>.)
\<close>

datatype jsval = Num int | NaN | Undefined

text \<open>\<^verbatim>\<open>str.split(c)\<close> for a one-character separator.\<close>

fun split_on :: "char \<Rightarrow> string \<Rightarrow> string list" where
  "split_on c [] = [[]]"
| "split_on c (x # xs) =
     (if x = c then [] # split_on c xs
      else (case split_on c xs of [] \<Rightarrow> [[x]] | p # ps \<Rightarrow> (x # p) # ps))"

text \<open>
  The white space and the digits of \<^verbatim>\<open>parseInt\<close>, for the one-byte characters of a \<open>string\<close>.
  (\<^verbatim>\<open>parseInt\<close> also skips the white space beyond ASCII, such as U+00A0, which a \<open>string\<close>
  does not hold as one character.)
\<close>

definition is_space :: "char \<Rightarrow> bool" where
  "is_space ch = (ch \<in> set [CHR '' '', CHR 0x09, CHR 0x0A, CHR 0x0B, CHR 0x0C, CHR 0x0D])"

definition is_digit :: "char \<Rightarrow> bool" where
  "is_digit ch = ((48::nat) \<le> of_char ch \<and> of_char ch \<le> (57::nat))"

definition digits_value :: "string \<Rightarrow> int" where
  "digits_value ds = foldl (\<lambda>a ch. 10 * a + (int (of_char ch) - 48)) 0 ds"

text \<open>
  \<^verbatim>\<open>parseInt(str, 10)\<close>: leading white space is skipped, one sign is read, then the
  longest run of decimal digits; without a digit the result is \<^verbatim>\<open>NaN\<close>. Nothing is thrown.
\<close>

definition parseInt10 :: "string \<Rightarrow> jsval" where
  "parseInt10 str =
     (let t = dropWhile is_space str;
          neg = (t \<noteq> [] \<and> hd t = CHR ''-'');
          r = (if t \<noteq> [] \<and> (hd t = CHR ''-'' \<or> hd t = CHR ''+'') then tl t else t);
          ds = takeWhile is_digit r
      in if ds = [] then NaN
         else Num (if neg then - digits_value ds else digits_value ds))"

text \<open>
  Line 284:
  \<^verbatim>\<open>const [width, height] = resolution.split('x').map(dim => parseInt(dim, 10));\<close>
\<close>

definition parse_resolution :: "string \<Rightarrow> jsval \<times> jsval" where
  "parse_resolution r =
     (case map parseInt10 (split_on CHR ''x'' r) of
        [] \<Rightarrow> (Undefined, Undefined)
      | [a] \<Rightarrow> (a, Undefined)
      | a # b # _ \<Rightarrow> (a, b))"

subsection \<open>Numbers of the command line\<close>

text \<open>
  \<^verbatim>\<open>depth\<close> and \<^verbatim>\<open>maxPages\<close> are options of type \<^verbatim>\<open>number\<close> (lines 191--202), which the script
  checks in no way: what reaches \<^verbatim>\<open>takeScreenshots\<close> is any JavaScript number, a finite one
  (whole or not, of any sign), an infinity, or \<^verbatim>\<open>NaN\<close> (for \<^verbatim>\<open>--maxPages abc\<close>). A finite
  double is a real number. The script compares these numbers with \<^verbatim>\<open>visited.size\<close> and
  with \<^verbatim>\<open>currentDepth\<close>, which are whole: \<open>int_ge n x\<close> is \<^verbatim>\<open>n >= x\<close>, \<open>int_gt n x\<close> is
  \<^verbatim>\<open>n > x\<close>, \<open>int_lt n x\<close> is \<^verbatim>\<open>n < x\<close> and \<open>int_le n x\<close> is \<^verbatim>\<open>n <= x\<close>; every
  comparison with \<^verbatim>\<open>NaN\<close> is false. (\<^verbatim>\<open>currentDepth\<close> starts at 1 and grows by 1; it is
  taken as an exact integer, where a double stops growing at \<open>2^53\<close>.)
\<close>

datatype number = Finite real | PlusInfinity | MinusInfinity | NotANumber

fun int_ge :: "int \<Rightarrow> number \<Rightarrow> bool" where
  "int_ge n (Finite r) = (r \<le> of_int n)"
| "int_ge n PlusInfinity = False"
| "int_ge n MinusInfinity = True"
| "int_ge n NotANumber = False"

fun int_gt :: "int \<Rightarrow> number \<Rightarrow> bool" where
  "int_gt n (Finite r) = (r < of_int n)"
| "int_gt n PlusInfinity = False"
| "int_gt n MinusInfinity = True"
| "int_gt n NotANumber = False"

fun int_lt :: "int \<Rightarrow> number \<Rightarrow> bool" where
  "int_lt n (Finite r) = (of_int n < r)"
| "int_lt n PlusInfinity = True"
| "int_lt n MinusInfinity = False"
| "int_lt n NotANumber = False"

fun int_le :: "int \<Rightarrow> number \<Rightarrow> bool" where
  "int_le n (Finite r) = (of_int n \<le> r)"
| "int_le n PlusInfinity = True"
| "int_le n MinusInfinity = False"
| "int_le n NotANumber = False"

subsection \<open>Configuration, environment and state\<close>

text \<open>The parameters of \<^verbatim>\<open>takeScreenshots\<close> that stay fixed during a run.\<close>

record config =
  resolution :: string
  outputDir :: string
  fileType :: string
  depth :: number
  maxPages :: number
  followExternal :: bool

text \<open>
  What the source asks of its collaborators, per URL of the task at hand. A field of
  type \<open>bool\<close> is \<open>True\<close> when the call returns and \<open>False\<close> when it throws.
  \<^item> \<open>puppeteer_launch\<close>: \<^verbatim>\<open>puppeteer.launch()\<close> and \<^verbatim>\<open>browser.newPage()\<close> (lines 282, 283);
  \<^item> \<open>page_setViewport\<close>: \<^verbatim>\<open>page.setViewport({ width, height })\<close> (line 285);
  \<^item> \<open>page_goto\<close>: \<^verbatim>\<open>page.goto(targetUrl, ...)\<close> (line 286);
  \<^item> \<open>new_URL\<close>: the origin of \<^verbatim>\<open>new URL(targetUrl)\<close>, \<open>None\<close> when the constructor throws
    (lines 226 and 300);
  \<^item> \<open>page_pdf\<close>, \<open>page_screenshot\<close>: lines 292 and 294;
  \<^item> \<open>page_hrefs\<close>: \<^verbatim>\<open>page.evaluate\<close> of line 243; it gives \<^verbatim>\<open>link.href\<close> for the anchors
    of the page, in document order, or \<open>None\<close> when the evaluation throws;
  \<^item> \<open>browser_close\<close>: line 309.
\<close>

record world =
  puppeteer_launch :: "string \<Rightarrow> bool"
  page_setViewport :: "jsval \<Rightarrow> jsval \<Rightarrow> bool"
  page_goto :: "string \<Rightarrow> bool"
  new_URL :: "string \<Rightarrow> string option"
  page_pdf :: "string \<Rightarrow> bool"
  page_screenshot :: "string \<Rightarrow> string \<Rightarrow> bool"
  page_hrefs :: "string \<Rightarrow> string list option"
  browser_close :: "string \<Rightarrow> bool"

text \<open>
  What a run does, in order. \<open>Rejected u d n\<close>: the call for \<open>u\<close> at depth \<open>d\<close> returned
  at the guard of line 276, with \<open>n\<close> URLs in the visited set. \<open>Claimed u d n\<close>: line 281
  ran for \<open>u\<close> at depth \<open>d\<close>, and the visited set had \<open>n\<close> elements just after.
  \<open>Goto u\<close>: \<^verbatim>\<open>page.goto\<close> was called. \<open>Captured u\<close>: the artifact was written (line 297).
  \<open>FindLinks u b\<close>: \<^verbatim>\<open>findLinks\<close> was called for the page \<open>u\<close> with base \<open>b\<close>.
  \<open>Failed u\<close>: the \<^verbatim>\<open>catch\<close> of line 310 logged an error for \<open>u\<close>.
\<close>

datatype event =
    Rejected string int nat
  | Claimed string int nat
  | Goto string
  | Captured string
  | FindLinks string string
  | Failed string

text \<open>The one mutable object of a run, the \<^verbatim>\<open>visited\<close> set, and the log of events.\<close>

record crawl_state =
  visited :: "string list"
  trace :: "event list"

definition log_event :: "event \<Rightarrow> crawl_state \<Rightarrow> crawl_state" where
  "log_event e s = s\<lparr>trace := trace s @ [e]\<rparr>"

text \<open>Line 281: \<^verbatim>\<open>visited.add(targetUrl)\<close>.\<close>

definition claim :: "string \<Rightarrow> int \<Rightarrow> crawl_state \<Rightarrow> crawl_state" where
  "claim url d s =
     log_event (Claimed url d (length (set_add url (visited s))))
       (s\<lparr>visited := set_add url (visited s)\<rparr>)"

text \<open>Lines 310--312: the error is logged and the call returns.\<close>

definition failed :: "string \<Rightarrow> crawl_state \<Rightarrow> crawl_state" where
  "failed url s = log_event (Failed url) s"

subsection \<open>\<^verbatim>\<open>findLinks\<close>\<close>

text \<open>
  Lines 242--260. The page is given by the \<^verbatim>\<open>href\<close>s of its anchors; the \<^verbatim>\<open>forEach\<close> is a
  left fold over them, with the set \<^verbatim>\<open>uniqueLinks\<close> as accumulator.
\<close>

definition findLinks_step :: "string \<Rightarrow> bool \<Rightarrow> string list \<Rightarrow> string \<Rightarrow> string list" where
  "findLinks_step base followExt uniqueLinks href =
     (if startsWith href ''http'' then
        (let isExternal = \<not> startsWith href base
         in if followExt \<or> \<not> isExternal then set_add href uniqueLinks else uniqueLinks)
      else uniqueLinks)"

definition findLinks :: "string list \<Rightarrow> string \<Rightarrow> bool \<Rightarrow> string list" where
  "findLinks hrefs base followExt = foldl (findLinks_step base followExt) [] hrefs"

subsection \<open>\<^verbatim>\<open>takeScreenshots\<close>\<close>

text \<open>Lines 282--285: the browser and the page are opened and the viewport is set.\<close>

definition open_page :: "world \<Rightarrow> config \<Rightarrow> string \<Rightarrow> bool" where
  "open_page w c url =
     (puppeteer_launch w url \<and>
      (case parse_resolution (resolution c) of
         (width, height) \<Rightarrow> page_setViewport w width height))"

text \<open>
  Lines 288--295: \<^verbatim>\<open>getFilenameFromUrl\<close> builds \<^verbatim>\<open>new URL(targetUrl)\<close>, then the page is
  written as a PDF or as an image.
\<close>

definition save_capture :: "world \<Rightarrow> config \<Rightarrow> string \<Rightarrow> bool" where
  "save_capture w c url =
     (new_URL w url \<noteq> None \<and>
      (if fileType c = ''pdf'' then page_pdf w url
       else page_screenshot w url (fileType c)))"

definition captured :: "string \<Rightarrow> int \<Rightarrow> crawl_state \<Rightarrow> crawl_state" where
  "captured url d s = log_event (Captured url) (log_event (Goto url) (claim url d s))"

text \<open>Line 309; when \<^verbatim>\<open>browser.close()\<close> throws, the \<^verbatim>\<open>catch\<close> logs it.\<close>

definition close_browser :: "world \<Rightarrow> string \<Rightarrow> crawl_state \<Rightarrow> crawl_state" where
  "close_browser w url s = (if browser_close w url then s else failed url s)"

text \<open>
  A call of the script may never return: nothing bounds the recursion when \<^verbatim>\<open>depth\<close> is
  \<^verbatim>\<open>Infinity\<close> and \<^verbatim>\<open>maxPages\<close> is \<^verbatim>\<open>Infinity\<close> or \<^verbatim>\<open>NaN\<close>. The model therefore counts
  nested calls. \<open>Returned s\<close>: the call has returned and left the state \<open>s\<close>. \<open>Running s\<close>:
  the number of nested calls allowed was used up while the call was in progress, and \<open>s\<close>
  is the state reached by then, at the point where one more nested call was about to
  start.
\<close>

datatype progress = Returned crawl_state | Running crawl_state

fun state_of :: "progress \<Rightarrow> crawl_state" where
  "state_of (Returned s) = s"
| "state_of (Running s) = s"

fun returned :: "progress \<Rightarrow> bool" where
  "returned (Returned s) = True"
| "returned (Running s) = False"

text \<open>
  Lines 275--313. The first argument is the number of nested calls of \<^verbatim>\<open>takeScreenshots\<close>
  still allowed, this one included. \<open>visit_links\<close> is the \<^verbatim>\<open>for\<close> loop of lines 302--306;
  the state it hands to the next link is the one the recursive call left. Each \<open>failed\<close>
  is a place where the \<^verbatim>\<open>try\<close> block is left by an exception; nothing is thrown outside
  the block.
\<close>

fun takeScreenshots ::
    "nat \<Rightarrow> world \<Rightarrow> config \<Rightarrow> string \<Rightarrow> crawl_state \<Rightarrow> int \<Rightarrow> progress"
  and visit_links ::
    "nat \<Rightarrow> world \<Rightarrow> config \<Rightarrow> string list \<Rightarrow> crawl_state \<Rightarrow> int \<Rightarrow> progress"
where
  "takeScreenshots 0 w c targetUrl s currentDepth = Running s"
| "takeScreenshots (Suc n) w c targetUrl s currentDepth =
     (if int_ge (int (length (visited s))) (maxPages c) \<or> int_gt currentDepth (depth c)
      then Returned (log_event (Rejected targetUrl currentDepth (length (visited s))) s)
      else if \<not> open_page w c targetUrl
      then Returned (failed targetUrl (claim targetUrl currentDepth s))
      else if \<not> page_goto w targetUrl
      then Returned
             (failed targetUrl (log_event (Goto targetUrl) (claim targetUrl currentDepth s)))
      else if \<not> save_capture w c targetUrl
      then Returned
             (failed targetUrl (log_event (Goto targetUrl) (claim targetUrl currentDepth s)))
      else if int_lt currentDepth (depth c)
      then (case new_URL w targetUrl of
              None \<Rightarrow> Returned (failed targetUrl (captured targetUrl currentDepth s))
            | Some base \<Rightarrow>
                (case page_hrefs w targetUrl of
                   None \<Rightarrow>
                     Returned
                       (failed targetUrl
                          (log_event (FindLinks targetUrl base)
                             (captured targetUrl currentDepth s)))
                 | Some hrefs \<Rightarrow>
                     (case visit_links n w c (findLinks hrefs base (followExternal c))
                             (log_event (FindLinks targetUrl base)
                                (captured targetUrl currentDepth s))
                             currentDepth of
                        Running s' \<Rightarrow> Running s'
                      | Returned s' \<Rightarrow> Returned (close_browser w targetUrl s'))))
      else Returned (close_browser w targetUrl (captured targetUrl currentDepth s)))"
| "visit_links n w c [] s currentDepth = Returned s"
| "visit_links n w c (link # links) s currentDepth =
     (if link \<notin> set (visited s)
      then (case takeScreenshots n w c link s (currentDepth + 1) of
              Running s' \<Rightarrow> Running s'
            | Returned s' \<Rightarrow> visit_links n w c links s' currentDepth)
      else visit_links n w c links s currentDepth)"

text \<open>
  The call has work to do below itself: it passes the guard of line 276, its page is
  captured, line 299 allows the expansion, and the links of the page are read.
\<close>

definition expands :: "world \<Rightarrow> config \<Rightarrow> string \<Rightarrow> crawl_state \<Rightarrow> int \<Rightarrow> bool" where
  "expands w c u s d \<longleftrightarrow>
     \<not> (int_ge (int (length (visited s))) (maxPages c) \<or> int_gt d (depth c)) \<and>
     open_page w c u \<and> page_goto w u \<and> save_capture w c u \<and> int_lt d (depth c) \<and>
     new_URL w u \<noteq> None \<and> page_hrefs w u \<noteq> None"

text \<open>
  Lines 321--327: the script calls \<^verbatim>\<open>takeScreenshots\<close> once, for the seed, with an empty
  visited set and depth 1. \<open>run n\<close> is that call with \<open>n\<close> nested calls allowed.
\<close>

definition run :: "nat \<Rightarrow> world \<Rightarrow> config \<Rightarrow> string \<Rightarrow> progress" where
  "run n w c seed = takeScreenshots n w c seed \<lparr>visited = [], trace = []\<rparr> 1"

text \<open>
  The depths at which \<^verbatim>\<open>takeScreenshots\<close> is called: 1 for the seed, and one more than the
  depth of a task that line 299 let expand.
\<close>

definition callable :: "config \<Rightarrow> int \<Rightarrow> bool" where
  "callable c d \<longleftrightarrow> d = 1 \<or> (1 < d \<and> int_lt (d - 1) (depth c))"

subsection \<open>Reading a trace\<close>

text \<open>
  The tasks that ran line 281, with their depth and the size of the visited set just
  after; the calls of \<^verbatim>\<open>takeScreenshots\<close> (each call logs \<open>Rejected\<close> or \<open>Claimed\<close> first);
  the URLs handed to \<^verbatim>\<open>page.goto\<close>.
\<close>

definition claims :: "event list \<Rightarrow> (string \<times> int \<times> nat) list" where
  "claims tr = concat (map (\<lambda>e. case e of Claimed u d n \<Rightarrow> [(u, d, n)] | _ \<Rightarrow> []) tr)"

definition calls :: "event list \<Rightarrow> (string \<times> int) list" where
  "calls tr =
     concat (map (\<lambda>e. case e of Claimed u d n \<Rightarrow> [(u, d)] | Rejected u d n \<Rightarrow> [(u, d)] | _ \<Rightarrow> []) tr)"

definition gotos :: "event list \<Rightarrow> string list" where
  "gotos tr = concat (map (\<lambda>e. case e of Goto u \<Rightarrow> [u] | _ \<Rightarrow> []) tr)"

definition findlinks_calls :: "event list \<Rightarrow> (string \<times> string) list" where
  "findlinks_calls tr = concat (map (\<lambda>e. case e of FindLinks u b \<Rightarrow> [(u, b)] | _ \<Rightarrow> []) tr)"

subsection \<open>Concrete environments\<close>

text \<open>
  The origin of an absolute \<^verbatim>\<open>http\<close> or \<^verbatim>\<open>https\<close> URL written
  \<^verbatim>\<open>scheme://host[:port]\<close> followed by a path, a query or a fragment: the text up to the
  first \<^verbatim>\<open>/\<close>, \<^verbatim>\<open>?\<close> or \<^verbatim>\<open>#\<close> after the scheme. This is what \<^verbatim>\<open>new URL(u).origin\<close> gives
  for the lower-case URLs without user information and without default port of the
  scenarios below; it is used only to build them.
\<close>

definition origin_of_url :: "string \<Rightarrow> string option" where
  "origin_of_url u =
     (if startsWith u ''https://''
      then Some (''https://'' @ takeWhile (\<lambda>ch. ch \<notin> set ''/?#'') (drop 8 u))
      else if startsWith u ''http://''
      then Some (''http://'' @ takeWhile (\<lambda>ch. ch \<notin> set ''/?#'') (drop 7 u))
      else None)"

text \<open>A browser that refuses a viewport whose width or height is not a positive integer.\<close>

definition viewport_ok :: "jsval \<Rightarrow> jsval \<Rightarrow> bool" where
  "viewport_ok wd ht = (case (wd, ht) of (Num a, Num b) \<Rightarrow> 0 < a \<and> 0 < b | _ \<Rightarrow> False)"

text \<open>
  A web given by the anchors of each page and by the URLs whose navigation succeeds;
  everything else works.
\<close>

definition web :: "(string \<Rightarrow> string list) \<Rightarrow> (string \<Rightarrow> bool) \<Rightarrow> world" where
  "web anchors reachable =
     \<lparr>puppeteer_launch = (\<lambda>u. True),
      page_setViewport = viewport_ok,
      page_goto = reachable,
      new_URL = origin_of_url,
      page_pdf = (\<lambda>u. True),
      page_screenshot = (\<lambda>u t. True),
      page_hrefs = (\<lambda>u. Some (anchors u)),
      browser_close = (\<lambda>u. True)\<rparr>"

text \<open>The command line with the default output directory and file type.\<close>

definition cli :: "string \<Rightarrow> number \<Rightarrow> number \<Rightarrow> bool \<Rightarrow> config" where
  "cli res d m f =
     \<lparr>resolution = res, outputDir = ''./screenshots'', fileType = ''png'',
      depth = d, maxPages = m, followExternal = f\<rparr>"

text \<open>
  The seed page \<^verbatim>\<open>https://a.test/\<close> links to a page of another host whose name starts
  with the seed's host name.
\<close>

definition web_lookalike :: world where
  "web_lookalike =
     web (\<lambda>u. if u = ''https://a.test/'' then [''https://a.test.evil.example/x''] else [])
       (\<lambda>u. True)"

text \<open>Scenario B of the specification: the seed page has three anchors.\<close>

definition web_B :: world where
  "web_B =
     web (\<lambda>u. if u = ''https://a.test/''
              then [''https://a.test/x'', ''https://a.test/x'', ''https://b.test/y'']
              else [''https://a.test/''])
       (\<lambda>u. True)"

text \<open>
  The seed page links to itself with a fragment and with a query, and to a page with and
  without a trailing slash (twice without).
\<close>

definition web_variants :: world where
  "web_variants =
     web (\<lambda>u. if u = ''https://a.test/''
              then [''https://a.test/#top'', ''https://a.test/?q=1'', ''https://a.test/x'',
                    ''https://a.test/x/'', ''https://a.test/x'']
              else [])
       (\<lambda>u. True)"

text \<open>
  Scenario D of the specification: the seed page links to two pages of its site, and the
  navigation to the first of them fails.
\<close>

definition web_D :: world where
  "web_D =
     web (\<lambda>u. if u = ''https://a.test/''
              then [''https://a.test/down'', ''https://a.test/up'']
              else [])
       (\<lambda>u. u \<noteq> ''https://a.test/down'')"


section \<open>Basic facts\<close>

subsection \<open>The state operations and the projections of a trace\<close>

declare takeScreenshots.simps(2) [simp del]

lemma visited_log_event [simp]: "visited (log_event e s) = visited s"
  by (simp add: log_event_def)

lemma trace_log_event [simp]: "trace (log_event e s) = trace s @ [e]"
  by (simp add: log_event_def)

lemma visited_claim [simp]: "visited (claim u d s) = set_add u (visited s)"
  by (simp add: claim_def)

lemma trace_claim [simp]:
  "trace (claim u d s) = trace s @ [Claimed u d (length (set_add u (visited s)))]"
  by (simp add: claim_def)

lemma visited_failed [simp]: "visited (failed u s) = visited s"
  by (simp add: failed_def)

lemma trace_failed [simp]: "trace (failed u s) = trace s @ [Failed u]"
  by (simp add: failed_def)

lemma visited_captured [simp]: "visited (captured u d s) = set_add u (visited s)"
  by (simp add: captured_def)

lemma trace_captured [simp]:
  "trace (captured u d s) =
     trace s @ [Claimed u d (length (set_add u (visited s))), Goto u, Captured u]"
  by (simp add: captured_def)

lemma visited_close_browser [simp]: "visited (close_browser w u s) = visited s"
  by (simp add: close_browser_def)

lemma trace_close_browser [simp]:
  "trace (close_browser w u s) = trace s @ (if browser_close w u then [] else [Failed u])"
  by (simp add: close_browser_def)

lemma set_add_fresh: "x \<notin> set xs \<Longrightarrow> set_add x xs = xs @ [x]"
  by (simp add: set_add_def)

lemma set_set_add [simp]: "set (set_add x xs) = insert x (set xs)"
  by (auto simp: set_add_def)

lemma distinct_set_add [simp]: "distinct (set_add x xs) = distinct xs"
  by (simp add: set_add_def)


lemma length_set_add_ge: "length xs \<le> length (set_add x xs)"
  by (simp add: set_add_def)

lemma claims_simps [simp]:
  "claims [] = []"
  "claims (tr @ tr') = claims tr @ claims tr'"
  "claims (Claimed u d n # tr) = (u, d, n) # claims tr"
  "claims (Rejected u d n # tr) = claims tr"
  "claims (Goto u # tr) = claims tr"
  "claims (Captured u # tr) = claims tr"
  "claims (FindLinks u b # tr) = claims tr"
  "claims (Failed u # tr) = claims tr"
  by (simp_all add: claims_def)

lemma calls_simps [simp]:
  "calls [] = []"
  "calls (tr @ tr') = calls tr @ calls tr'"
  "calls (Claimed u d n # tr) = (u, d) # calls tr"
  "calls (Rejected u d n # tr) = (u, d) # calls tr"
  "calls (Goto u # tr) = calls tr"
  "calls (Captured u # tr) = calls tr"
  "calls (FindLinks u b # tr) = calls tr"
  "calls (Failed u # tr) = calls tr"
  by (simp_all add: calls_def)

lemma gotos_simps [simp]:
  "gotos [] = []"
  "gotos (tr @ tr') = gotos tr @ gotos tr'"
  "gotos (Claimed u d n # tr) = gotos tr"
  "gotos (Rejected u d n # tr) = gotos tr"
  "gotos (Goto u # tr) = u # gotos tr"
  "gotos (Captured u # tr) = gotos tr"
  "gotos (FindLinks u b # tr) = gotos tr"
  "gotos (Failed u # tr) = gotos tr"
  by (simp_all add: gotos_def)

lemma findlinks_calls_simps [simp]:
  "findlinks_calls [] = []"
  "findlinks_calls (tr @ tr') = findlinks_calls tr @ findlinks_calls tr'"
  "findlinks_calls (Claimed u d n # tr) = findlinks_calls tr"
  "findlinks_calls (Rejected u d n # tr) = findlinks_calls tr"
  "findlinks_calls (Goto u # tr) = findlinks_calls tr"
  "findlinks_calls (Captured u # tr) = findlinks_calls tr"
  "findlinks_calls (FindLinks u b # tr) = (u, b) # findlinks_calls tr"
  "findlinks_calls (Failed u # tr) = findlinks_calls tr"
  by (simp_all add: findlinks_calls_def)

subsection \<open>The link filter\<close>

lemma startsWith_simps [simp]:
  "startsWith s [] = True"
  "startsWith [] (p # ps) = False"
  "startsWith (x # xs) (p # ps) = (x = p \<and> startsWith xs ps)"
  by (auto simp: startsWith_def)

lemma findLinks_foldl:
  "set (foldl (findLinks_step base fe) acc hs) =
     set acc \<union> {h \<in> set hs. startsWith h ''http'' \<and> (fe \<or> startsWith h base)}"
  "distinct acc \<Longrightarrow> distinct (foldl (findLinks_step base fe) acc hs)"
  by (induction hs arbitrary: acc) (auto simp: findLinks_step_def Let_def)

text \<open>
  What the filter does guarantee with \<^verbatim>\<open>followExternal = false\<close>: every link it keeps
  starts with \<^verbatim>\<open>http\<close> and with the base it was given.
\<close>

lemma findLinks_internal_prefix:
  "h \<in> set (findLinks hs base False) \<Longrightarrow> startsWith h ''http'' \<and> startsWith h base"
  by (simp add: findLinks_def findLinks_foldl)




subsection \<open>Unfolding and growth\<close>

text \<open>The equation of \<open>takeScreenshots\<close> for any number of nested calls allowed.\<close>

lemma takeScreenshots_unfold:
  "takeScreenshots n w c targetUrl s currentDepth =
     (if n = 0 then Running s
      else if int_ge (int (length (visited s))) (maxPages c) \<or> int_gt currentDepth (depth c)
      then Returned (log_event (Rejected targetUrl currentDepth (length (visited s))) s)
      else if \<not> open_page w c targetUrl
      then Returned (failed targetUrl (claim targetUrl currentDepth s))
      else if \<not> page_goto w targetUrl
      then Returned
             (failed targetUrl (log_event (Goto targetUrl) (claim targetUrl currentDepth s)))
      else if \<not> save_capture w c targetUrl
      then Returned
             (failed targetUrl (log_event (Goto targetUrl) (claim targetUrl currentDepth s)))
      else if int_lt currentDepth (depth c)
      then (case new_URL w targetUrl of
              None \<Rightarrow> Returned (failed targetUrl (captured targetUrl currentDepth s))
            | Some base \<Rightarrow>
                (case page_hrefs w targetUrl of
                   None \<Rightarrow>
                     Returned
                       (failed targetUrl
                          (log_event (FindLinks targetUrl base)
                             (captured targetUrl currentDepth s)))
                 | Some hrefs \<Rightarrow>
                     (case visit_links (n - 1) w c (findLinks hrefs base (followExternal c))
                             (log_event (FindLinks targetUrl base)
                                (captured targetUrl currentDepth s))
                             currentDepth of
                        Running s' \<Rightarrow> Running s'
                      | Returned s' \<Rightarrow> Returned (close_browser w targetUrl s'))))
      else Returned (close_browser w targetUrl (captured targetUrl currentDepth s)))"
  by (cases n) (simp_all add: takeScreenshots.simps(2) split: option.splits)


lemma takeScreenshots_expands:
  assumes "expands w c u s d"
  obtains base hs where "new_URL w u = Some base" and "page_hrefs w u = Some hs"
    and "takeScreenshots (Suc n) w c u s d =
       (case visit_links n w c (findLinks hs base (followExternal c))
               (log_event (FindLinks u base) (captured u d s)) d of
          Running s' \<Rightarrow> Running s'
        | Returned s' \<Rightarrow> Returned (close_browser w u s'))"
proof -
  obtain base hs where b: "new_URL w u = Some base" and h: "page_hrefs w u = Some hs"
    using assms by (auto simp: expands_def)
  show thesis
    using assms b h by (intro that [of base hs]) (simp_all add: takeScreenshots.simps(2) expands_def)
qed

text \<open>Otherwise the call returns after its own steps.\<close>

lemma takeScreenshots_stops:
  assumes "\<not> expands w c u s d"
  shows "takeScreenshots (Suc n) w c u s d =
     Returned
       (if int_ge (int (length (visited s))) (maxPages c) \<or> int_gt d (depth c)
        then log_event (Rejected u d (length (visited s))) s
        else if \<not> open_page w c u then failed u (claim u d s)
        else if \<not> (page_goto w u \<and> save_capture w c u)
        then failed u (log_event (Goto u) (claim u d s))
        else if \<not> int_lt d (depth c) then close_browser w u (captured u d s)
        else if new_URL w u = None then failed u (captured u d s)
        else failed u (log_event (FindLinks u (the (new_URL w u))) (captured u d s)))"
  using assms by (auto simp: takeScreenshots.simps(2) expands_def split: option.splits)

text \<open>The visited set and the trace only grow.\<close>

lemma visited_grows:
  "set (visited s) \<subseteq> set (visited (state_of (takeScreenshots n w c u s d)))"
  "set (visited s) \<subseteq> set (visited (state_of (visit_links n w c ls s d)))"
proof (induction n w c u s d and n w c ls s d rule: takeScreenshots_visit_links.induct)
  case (1 w c targetUrl s currentDepth)
  then show ?case by simp
next
  case (2 n w c targetUrl s currentDepth)
  show ?case
  proof (cases "expands w c targetUrl s currentDepth")
    case True
    then obtain base hs where b: "new_URL w targetUrl = Some base"
      and h: "page_hrefs w targetUrl = Some hs"
      and eq: "takeScreenshots (Suc n) w c targetUrl s currentDepth =
       (case visit_links n w c (findLinks hs base (followExternal c))
               (log_event (FindLinks targetUrl base) (captured targetUrl currentDepth s))
               currentDepth of
          Running s' \<Rightarrow> Running s'
        | Returned s' \<Rightarrow> Returned (close_browser w targetUrl s'))"
      by (rule takeScreenshots_expands)
    have "set (visited (log_event (FindLinks targetUrl base) (captured targetUrl currentDepth s)))
        \<subseteq> set (visited (state_of (visit_links n w c (findLinks hs base (followExternal c))
               (log_event (FindLinks targetUrl base) (captured targetUrl currentDepth s))
               currentDepth)))"
      using "2.IH" [OF _ _ _ _ _ b h] True by (simp add: expands_def)
    then show ?thesis
      unfolding eq by (auto split: progress.splits)
  next
    case False
    then show ?thesis
      by (subst takeScreenshots_stops) auto
  qed
next
  case (3 n w c s currentDepth)
  then show ?case by simp
next
  case (4 n w c link links s currentDepth)
  show ?case
  proof (cases "link \<in> set (visited s)")
    case True
    then show ?thesis using "4.IH"(3) by simp
  next
    case False
    show ?thesis
    proof (cases "takeScreenshots n w c link s (currentDepth + 1)")
      case (Returned s')
      then show ?thesis
        using "4.IH"(1) [OF False] "4.IH"(2) [OF False Returned] False by auto
    next
      case (Running s')
      then show ?thesis
        using "4.IH"(1) [OF False] False by auto
    qed
  qed
qed

lemma trace_grows:
  "prefix (trace s) (trace (state_of (takeScreenshots n w c u s d)))"
  "prefix (trace s) (trace (state_of (visit_links n w c ls s d)))"
proof (induction n w c u s d and n w c ls s d rule: takeScreenshots_visit_links.induct)
  case (1 w c targetUrl s currentDepth)
  then show ?case by simp
next
  case (2 n w c targetUrl s currentDepth)
  show ?case
  proof (cases "expands w c targetUrl s currentDepth")
    case True
    then obtain base hs where b: "new_URL w targetUrl = Some base"
      and h: "page_hrefs w targetUrl = Some hs"
      and eq: "takeScreenshots (Suc n) w c targetUrl s currentDepth =
       (case visit_links n w c (findLinks hs base (followExternal c))
               (log_event (FindLinks targetUrl base) (captured targetUrl currentDepth s))
               currentDepth of
          Running s' \<Rightarrow> Running s'
        | Returned s' \<Rightarrow> Returned (close_browser w targetUrl s'))"
      by (rule takeScreenshots_expands)
    let ?s1 = "log_event (FindLinks targetUrl base) (captured targetUrl currentDepth s)"
    have "prefix (trace ?s1)
        (trace (state_of (visit_links n w c (findLinks hs base (followExternal c)) ?s1
           currentDepth)))"
      using "2.IH" [OF _ _ _ _ _ b h] True by (simp add: expands_def)
    moreover have "prefix (trace s) (trace ?s1)" by simp
    ultimately have "prefix (trace s)
        (trace (state_of (visit_links n w c (findLinks hs base (followExternal c)) ?s1
           currentDepth)))"
      by (rule prefix_order.trans [rotated])
    then show ?thesis
      unfolding eq by (auto simp: prefix_def split: progress.splits)
  next
    case False
    then show ?thesis
      by (subst takeScreenshots_stops) auto
  qed
next
  case (3 n w c s currentDepth)
  then show ?case by simp
next
  case (4 n w c link links s currentDepth)
  show ?case
  proof (cases "link \<in> set (visited s)")
    case True
    then show ?thesis using "4.IH"(3) by simp
  next
    case False
    show ?thesis
    proof (cases "takeScreenshots n w c link s (currentDepth + 1)")
      case (Returned s')
      then show ?thesis
        using "4.IH"(1) [OF False] "4.IH"(2) [OF False Returned] False
        by (auto intro: prefix_order.trans)
    next
      case (Running s')
      then show ?thesis
        using "4.IH"(1) [OF False] False by auto
    qed
  qed
qed






subsection \<open>Properties kept by the recursion\<close>

text \<open>
  A property of the state that every elementary step of a task keeps holds in every state
  the recursion reaches, whether the call has returned or is still running.
\<close>

lemma crawl_preserves:
  fixes I :: "crawl_state \<Rightarrow> bool" and w :: world and c :: config
  assumes rej: "\<And>s u d. I s \<Longrightarrow> callable c d \<Longrightarrow>
                  int_ge (int (length (visited s))) (maxPages c) \<or> int_gt d (depth c) \<Longrightarrow>
                  I (log_event (Rejected u d (length (visited s))) s)"
    and clm: "\<And>s u d. I s \<Longrightarrow> callable c d \<Longrightarrow> u \<notin> set (visited s) \<Longrightarrow>
                  \<not> int_ge (int (length (visited s))) (maxPages c) \<Longrightarrow>
                  \<not> int_gt d (depth c) \<Longrightarrow> I (claim u d s)"
    and gto: "\<And>s u d. I s \<Longrightarrow> callable c d \<Longrightarrow> u \<notin> set (visited s) \<Longrightarrow>
                  \<not> int_ge (int (length (visited s))) (maxPages c) \<Longrightarrow>
                  \<not> int_gt d (depth c) \<Longrightarrow> open_page w c u \<Longrightarrow>
                  I (log_event (Goto u) (claim u d s))"
    and cap: "\<And>s u d. I s \<Longrightarrow> callable c d \<Longrightarrow> u \<notin> set (visited s) \<Longrightarrow>
                  \<not> int_ge (int (length (visited s))) (maxPages c) \<Longrightarrow>
                  \<not> int_gt d (depth c) \<Longrightarrow> open_page w c u \<Longrightarrow>
                  page_goto w u \<Longrightarrow> save_capture w c u \<Longrightarrow> I (captured u d s)"
    and fnd: "\<And>s u b. I s \<Longrightarrow> u \<in> set (visited s) \<Longrightarrow> I (log_event (FindLinks u b) s)"
    and fld: "\<And>s u. I s \<Longrightarrow> u \<in> set (visited s) \<Longrightarrow> I (failed u s)"
  shows "I s \<Longrightarrow> callable c d \<Longrightarrow> u \<notin> set (visited s) \<Longrightarrow>
           I (state_of (takeScreenshots n w c u s d))"
    and "I s \<Longrightarrow> 1 \<le> d \<Longrightarrow> int_lt d (depth c) \<Longrightarrow> I (state_of (visit_links n w c ls s d))"
  using rej clm gto cap fnd fld
proof (induction n w c u s d and n w c ls s d rule: takeScreenshots_visit_links.induct)
  case (1 w c targetUrl s currentDepth)
  then show ?case by simp
next
  case (2 n w c targetUrl s currentDepth)
  note pre = "2.prems"(1-3)
  note rej = "2.prems"(4) and clm = "2.prems"(5) and gto = "2.prems"(6)
    and cap = "2.prems"(7) and fnd = "2.prems"(8) and fld = "2.prems"(9)
  let ?guard = "int_ge (int (length (visited s))) (maxPages c) \<or> int_gt currentDepth (depth c)"
  show ?case
  proof (cases ?guard)
    case True
    then have "\<not> expands w c targetUrl s currentDepth" by (simp add: expands_def)
    then show ?thesis
      using rej [OF pre(1,2) True] True by (subst takeScreenshots_stops) simp_all
  next
    case False
    then have room: "\<not> int_ge (int (length (visited s))) (maxPages c)"
      and shallow: "\<not> int_gt currentDepth (depth c)" by simp_all
    note task = pre room shallow
    have I_claim: "I (claim targetUrl currentDepth s)" using clm [OF task] .
    have in_claim: "targetUrl \<in> set (visited (claim targetUrl currentDepth s))" by simp
    show ?thesis
    proof (cases "open_page w c targetUrl")
      case False
      then have "\<not> expands w c targetUrl s currentDepth" by (simp add: expands_def)
      then show ?thesis
        using room shallow False fld [OF I_claim in_claim]
        by (subst takeScreenshots_stops) simp_all
    next
      case opened: True
      have I_goto: "I (log_event (Goto targetUrl) (claim targetUrl currentDepth s))"
        using gto [OF task opened] .
      show ?thesis
      proof (cases "page_goto w targetUrl \<and> save_capture w c targetUrl")
        case False
        then have "\<not> expands w c targetUrl s currentDepth" by (auto simp: expands_def)
        then show ?thesis
          using room shallow opened False fld [OF I_goto]
          by (subst takeScreenshots_stops) simp_all
      next
        case True
        then have pg: "page_goto w targetUrl" and sc: "save_capture w c targetUrl" by simp_all
        have I_cap: "I (captured targetUrl currentDepth s)"
          using cap [OF task opened pg sc] .
        have in_cap: "targetUrl \<in> set (visited (captured targetUrl currentDepth s))" by simp
        have I_fnd: "I (log_event (FindLinks targetUrl b) (captured targetUrl currentDepth s))"
          for b using fnd [OF I_cap in_cap] .
        show ?thesis
        proof (cases "expands w c targetUrl s currentDepth")
          case False
          then show ?thesis
            using room shallow opened pg sc I_cap fld [OF I_cap in_cap] fld [OF I_fnd]
            by (subst takeScreenshots_stops) (simp_all add: close_browser_def)
        next
          case True
          then obtain base hs where b: "new_URL w targetUrl = Some base"
            and h: "page_hrefs w targetUrl = Some hs"
            and eq: "takeScreenshots (Suc n) w c targetUrl s currentDepth =
             (case visit_links n w c (findLinks hs base (followExternal c))
                     (log_event (FindLinks targetUrl base) (captured targetUrl currentDepth s))
                     currentDepth of
                Running s' \<Rightarrow> Running s'
              | Returned s' \<Rightarrow> Returned (close_browser w targetUrl s'))"
            by (rule takeScreenshots_expands)
          let ?s1 = "log_event (FindLinks targetUrl base) (captured targetUrl currentDepth s)"
          let ?r = "visit_links n w c (findLinks hs base (followExternal c)) ?s1 currentDepth"
          have deeper: "int_lt currentDepth (depth c)" using True by (simp add: expands_def)
          have pos: "1 \<le> currentDepth" using pre(2) by (auto simp: callable_def)
          have I_r: "I (state_of ?r)"
            using "2.IH" [OF False _ _ _ deeper b h I_fnd pos deeper rej clm gto cap fnd fld]
              opened pg sc
            by simp
          have in_r: "targetUrl \<in> set (visited (state_of ?r))"
            using visited_grows(2) [of ?s1 n w c "findLinks hs base (followExternal c)"
                currentDepth]
            by auto
          show ?thesis
            unfolding eq using I_r fld [OF I_r in_r]
            by (cases ?r) (simp_all add: close_browser_def)
        qed
      qed
    qed
  qed
next
  case (3 n w c s currentDepth)
  then show ?case by simp
next
  case (4 n w c link links s currentDepth)
  note pre = "4.prems"(1-3)
  note rules = "4.prems"(4-9)
  show ?case
  proof (cases "link \<in> set (visited s)")
    case True
    then show ?thesis using "4.IH"(3) [OF _ pre rules] by simp
  next
    case False
    have child: "callable c (currentDepth + 1)"
      using pre(2,3) by (simp add: callable_def)
    have I_child: "I (state_of (takeScreenshots n w c link s (currentDepth + 1)))"
      using "4.IH"(1) [OF False pre(1) child False rules] .
    show ?thesis
    proof (cases "takeScreenshots n w c link s (currentDepth + 1)")
      case (Returned s')
      then show ?thesis
        using "4.IH"(2) [OF False Returned _ pre(2,3) rules] I_child False by simp
    next
      case (Running s')
      then show ?thesis using I_child False by simp
    qed
  qed
qed

text \<open>The same for a run, which starts from the empty state at depth 1.\<close>

lemma run_preserves:
  fixes I :: "crawl_state \<Rightarrow> bool"
  assumes init: "I \<lparr>visited = [], trace = []\<rparr>"
    and rej: "\<And>s u d. I s \<Longrightarrow> callable c d \<Longrightarrow>
                  int_ge (int (length (visited s))) (maxPages c) \<or> int_gt d (depth c) \<Longrightarrow>
                  I (log_event (Rejected u d (length (visited s))) s)"
    and clm: "\<And>s u d. I s \<Longrightarrow> callable c d \<Longrightarrow> u \<notin> set (visited s) \<Longrightarrow>
                  \<not> int_ge (int (length (visited s))) (maxPages c) \<Longrightarrow>
                  \<not> int_gt d (depth c) \<Longrightarrow> I (claim u d s)"
    and gto: "\<And>s u d. I s \<Longrightarrow> callable c d \<Longrightarrow> u \<notin> set (visited s) \<Longrightarrow>
                  \<not> int_ge (int (length (visited s))) (maxPages c) \<Longrightarrow>
                  \<not> int_gt d (depth c) \<Longrightarrow> open_page w c u \<Longrightarrow>
                  I (log_event (Goto u) (claim u d s))"
    and cap: "\<And>s u d. I s \<Longrightarrow> callable c d \<Longrightarrow> u \<notin> set (visited s) \<Longrightarrow>
                  \<not> int_ge (int (length (visited s))) (maxPages c) \<Longrightarrow>
                  \<not> int_gt d (depth c) \<Longrightarrow> open_page w c u \<Longrightarrow>
                  page_goto w u \<Longrightarrow> save_capture w c u \<Longrightarrow> I (captured u d s)"
    and fnd: "\<And>s u b. I s \<Longrightarrow> u \<in> set (visited s) \<Longrightarrow> I (log_event (FindLinks u b) s)"
    and fld: "\<And>s u. I s \<Longrightarrow> u \<in> set (visited s) \<Longrightarrow> I (failed u s)"
  shows "I (state_of (run n w c seed))"
  unfolding run_def
  by (intro crawl_preserves(1) [where I = I and w = w and c = c, OF rej clm gto cap fnd fld init])
    (simp_all add: callable_def)

subsection \<open>What one call does\<close>

text \<open>A call that line 299 does not let expand makes no call and does not look for links.\<close>

lemma takeScreenshots_leaf:
  assumes "\<not> int_lt d (depth c)"
  shows "calls (trace (state_of (takeScreenshots (Suc n) w c u s d))) = calls (trace s) @ [(u, d)]"
    and "findlinks_calls (trace (state_of (takeScreenshots (Suc n) w c u s d)))
           = findlinks_calls (trace s)"
    and "returned (takeScreenshots (Suc n) w c u s d)"
proof -
  have "\<not> expands w c u s d" using assms by (simp add: expands_def)
  then show "calls (trace (state_of (takeScreenshots (Suc n) w c u s d))) = calls (trace s) @ [(u, d)]"
    and "findlinks_calls (trace (state_of (takeScreenshots (Suc n) w c u s d)))
           = findlinks_calls (trace s)"
    and "returned (takeScreenshots (Suc n) w c u s d)"
    using assms by (subst takeScreenshots_stops, simp, simp)+
qed

lemma takeScreenshots_leaf_claim:
  assumes "\<not> int_ge (int (length (visited s))) (maxPages c)" and "\<not> int_gt d (depth c)"
    and "\<not> int_lt d (depth c)"
  shows "visited (state_of (takeScreenshots (Suc n) w c u s d)) = set_add u (visited s)"
    and "claims (trace (state_of (takeScreenshots (Suc n) w c u s d))) =
           claims (trace s) @ [(u, d, length (set_add u (visited s)))]"
proof -
  have "\<not> expands w c u s d" using assms by (simp add: expands_def)
  then show "visited (state_of (takeScreenshots (Suc n) w c u s d)) = set_add u (visited s)"
    and "claims (trace (state_of (takeScreenshots (Suc n) w c u s d))) =
           claims (trace s) @ [(u, d, length (set_add u (visited s)))]"
    using assms by (subst takeScreenshots_stops, simp, simp)+
qed

text \<open>Every call that starts logs its own \<open>Rejected\<close> or \<open>Claimed\<close> event first.\<close>

lemma takeScreenshots_first_event:
  "\<exists>tr. trace (state_of (takeScreenshots (Suc n) w c u s d)) =
     trace s @
       (if int_ge (int (length (visited s))) (maxPages c) \<or> int_gt d (depth c)
        then Rejected u d (length (visited s))
        else Claimed u d (length (set_add u (visited s)))) # tr"
proof (cases "expands w c u s d")
  case True
  then obtain base hs where b: "new_URL w u = Some base" and h: "page_hrefs w u = Some hs"
    and eq: "takeScreenshots (Suc n) w c u s d =
       (case visit_links n w c (findLinks hs base (followExternal c))
               (log_event (FindLinks u base) (captured u d s)) d of
          Running s' \<Rightarrow> Running s'
        | Returned s' \<Rightarrow> Returned (close_browser w u s'))"
    by (rule takeScreenshots_expands)
  let ?s1 = "log_event (FindLinks u base) (captured u d s)"
  let ?r = "visit_links n w c (findLinks hs base (followExternal c)) ?s1 d"
  obtain zs where "trace (state_of ?r) = trace ?s1 @ zs"
    using trace_grows(2) [of ?s1 n w c "findLinks hs base (followExternal c)" d]
    by (auto simp: prefix_def)
  then show ?thesis
    unfolding eq using True by (cases ?r) (simp_all add: expands_def)
next
  case False
  then show ?thesis
    by (subst takeScreenshots_stops) auto
qed

lemma takeScreenshots_calls_self:
  "(u, d) \<in> set (calls (trace (state_of (takeScreenshots (Suc n) w c u s d))))"
  using takeScreenshots_first_event [of n w c u s d] by (auto split: if_splits)

lemma takeScreenshots_visited_self:
  assumes "\<not> (int_ge (int (length (visited s))) (maxPages c) \<or> int_gt d (depth c))"
  shows "u \<in> set (visited (state_of (takeScreenshots (Suc n) w c u s d)))"
proof (cases "expands w c u s d")
  case True
  then obtain base hs where b: "new_URL w u = Some base" and h: "page_hrefs w u = Some hs"
    and eq: "takeScreenshots (Suc n) w c u s d =
       (case visit_links n w c (findLinks hs base (followExternal c))
               (log_event (FindLinks u base) (captured u d s)) d of
          Running s' \<Rightarrow> Running s'
        | Returned s' \<Rightarrow> Returned (close_browser w u s'))"
    by (rule takeScreenshots_expands)
  let ?s1 = "log_event (FindLinks u base) (captured u d s)"
  let ?r = "visit_links n w c (findLinks hs base (followExternal c)) ?s1 d"
  have "u \<in> set (visited ?s1)" by simp
  then have "u \<in> set (visited (state_of ?r))"
    using visited_grows(2) [of ?s1 n w c "findLinks hs base (followExternal c)" d] by blast
  then show ?thesis
    unfolding eq by (cases ?r) simp_all
next
  case False
  then show ?thesis
    using assms by (subst takeScreenshots_stops) auto
qed

lemma takeScreenshots_visited_or_rejected:
  "u \<in> set (visited (state_of (takeScreenshots (Suc n) w c u s d)))
   \<or> Rejected u d (length (visited s)) \<in> set (trace (state_of (takeScreenshots (Suc n) w c u s d)))"
proof (cases "int_ge (int (length (visited s))) (maxPages c) \<or> int_gt d (depth c)")
  case True
  then have "\<not> expands w c u s d" by (simp add: expands_def)
  then show ?thesis using True by (subst (2) takeScreenshots_stops) simp_all
next
  case False
  then show ?thesis using takeScreenshots_visited_self by simp
qed

text \<open>Once the cap is reached, the loop over the links claims nothing more and returns.\<close>

lemma visit_links_full:
  "int_ge (int (length (visited s))) (maxPages c) \<Longrightarrow>
     returned (visit_links (Suc n) w c ls s d)
     \<and> visited (state_of (visit_links (Suc n) w c ls s d)) = visited s
     \<and> claims (trace (state_of (visit_links (Suc n) w c ls s d))) = claims (trace s)"
proof (induction ls arbitrary: s)
  case Nil
  then show ?case by simp
next
  case (Cons l ls)
  let ?s' = "log_event (Rejected l (d + 1) (length (visited s))) s"
  have "\<not> expands w c l s (d + 1)" using Cons.prems by (simp add: expands_def)
  then have call: "takeScreenshots (Suc n) w c l s (d + 1) = Returned ?s'"
    using Cons.prems by (subst takeScreenshots_stops) simp_all
  have "int_ge (int (length (visited ?s'))) (maxPages c)" using Cons.prems by simp
  then show ?case
    using Cons.IH [of ?s'] Cons.IH [of s] Cons.prems call by simp
qed

text \<open>
  No link of a page is dropped, whatever happens to the links before it: when the loop
  returns, each link is in the visited set or was rejected at the guard.
\<close>

lemma visit_links_every_link:
  "visit_links m w c ls s d = Returned s' \<Longrightarrow> l \<in> set ls \<Longrightarrow>
     l \<in> set (visited s') \<or> (\<exists>k. Rejected l (d + 1) k \<in> set (trace s'))"
proof (induction ls arbitrary: s)
  case Nil
  then show ?case by simp
next
  case (Cons a ls)
  show ?case
  proof (cases "a \<in> set (visited s)")
    case True
    then have rest: "visit_links m w c ls s d = Returned s'"
      using Cons.prems(1) by simp
    show ?thesis
    proof (cases "l = a")
      case eq: True
      have "set (visited s) \<subseteq> set (visited (state_of (visit_links m w c ls s d)))"
        by (rule visited_grows(2))
      then show ?thesis using True eq rest by auto
    next
      case False
      then show ?thesis using Cons.IH [OF rest] Cons.prems(2) by simp
    qed
  next
    case False
    then obtain s1 where call: "takeScreenshots m w c a s (d + 1) = Returned s1"
      and rest: "visit_links m w c ls s1 d = Returned s'"
      using Cons.prems(1) by (auto split: progress.splits)
    from call obtain n where m: "m = Suc n" by (cases m) simp_all
    show ?thesis
    proof (cases "l = a")
      case True
      have "a \<in> set (visited s1) \<or> (\<exists>k. Rejected a (d + 1) k \<in> set (trace s1))"
        using takeScreenshots_visited_or_rejected [of a n w c s "d + 1"] call m by auto
      moreover have "set (visited s1) \<subseteq> set (visited s')"
        using visited_grows(2) [of s1 m w c ls d] rest by simp
      moreover have "set (trace s1) \<subseteq> set (trace s')"
        using trace_grows(2) [of s1 m w c ls d] rest by (auto dest: set_mono_prefix)
      ultimately show ?thesis using True by auto
    next
      case ne: False
      then show ?thesis using Cons.IH [OF rest] Cons.prems(2) by simp
    qed
  qed
qed

subsection \<open>Returning\<close>

text \<open>Allowing more nested calls does not change what a call that returns leaves.\<close>

lemma more_calls_allowed:
  "takeScreenshots n w c u s d = Returned s' \<Longrightarrow> takeScreenshots (Suc n) w c u s d = Returned s'"
  "visit_links n w c ls s d = Returned s' \<Longrightarrow> visit_links (Suc n) w c ls s d = Returned s'"
proof (induction n w c u s d and n w c ls s d arbitrary: s' and s'
    rule: takeScreenshots_visit_links.induct)
  case (1 w c targetUrl s currentDepth)
  then show ?case by simp
next
  case (2 n w c targetUrl s currentDepth)
  show ?case
  proof (cases "expands w c targetUrl s currentDepth")
    case True
    then obtain base hs where b: "new_URL w targetUrl = Some base"
      and h: "page_hrefs w targetUrl = Some hs"
      and eq: "\<And>k. takeScreenshots (Suc k) w c targetUrl s currentDepth =
       (case visit_links k w c (findLinks hs base (followExternal c))
               (log_event (FindLinks targetUrl base) (captured targetUrl currentDepth s))
               currentDepth of
          Running s' \<Rightarrow> Running s'
        | Returned s' \<Rightarrow> Returned (close_browser w targetUrl s'))"
      by (auto simp: expands_def takeScreenshots.simps(2))
    let ?ls = "findLinks hs base (followExternal c)"
    let ?s1 = "log_event (FindLinks targetUrl base) (captured targetUrl currentDepth s)"
    obtain s1 where r: "visit_links n w c ?ls ?s1 currentDepth = Returned s1"
      and s': "s' = close_browser w targetUrl s1"
      using "2.prems" unfolding eq by (auto split: progress.splits)
    have "visit_links (Suc n) w c ?ls ?s1 currentDepth = Returned s1"
      using "2.IH" [OF _ _ _ _ _ b h r] True by (simp add: expands_def)
    then show ?thesis
      unfolding eq [of "Suc n"] using s' by simp
  next
    case False
    then show ?thesis
      using "2.prems" by (simp add: takeScreenshots_stops)
  qed
next
  case (3 n w c s currentDepth)
  then show ?case by simp
next
  case (4 n w c link links s currentDepth)
  show ?case
  proof (cases "link \<in> set (visited s)")
    case True
    then show ?thesis using "4.IH"(3) "4.prems" by simp
  next
    case False
    then obtain s1 where call: "takeScreenshots n w c link s (currentDepth + 1) = Returned s1"
      and rest: "visit_links n w c links s1 currentDepth = Returned s'"
      using "4.prems" by (auto split: progress.splits)
    show ?thesis
      using "4.IH"(1) [OF False call] "4.IH"(2) [OF False call rest] False by simp
  qed
qed

lemma run_more_calls_allowed:
  "run n w c seed = Returned s' \<Longrightarrow> run (n + k) w c seed = Returned s'"
  by (induction k) (simp_all add: run_def more_calls_allowed(1))



lemma goto_after_claim_snoc:
  assumes "\<forall>pre u post. tr = pre @ Goto u # post \<longrightarrow> (\<exists>d n. Claimed u d n \<in> set pre)"
    and "\<And>u. e = Goto u \<Longrightarrow> \<exists>d n. Claimed u d n \<in> set tr"
  shows "\<forall>pre u post. tr @ [e] = pre @ Goto u # post \<longrightarrow> (\<exists>d n. Claimed u d n \<in> set pre)"
proof (intro allI impI)
  fix pre u post
  assume eq: "tr @ [e] = pre @ Goto u # post"
  show "\<exists>d n. Claimed u d n \<in> set pre"
  proof (cases post rule: rev_cases)
    case Nil
    then have "e = Goto u" and "tr = pre" using eq by simp_all
    then show ?thesis using assms(2) by simp
  next
    case (snoc post' x)
    then have "tr = pre @ Goto u # post'" using eq by simp
    then show ?thesis using assms(1) by blast
  qed
qed


subsection \<open>Evaluation in the concrete environments\<close>

lemma parse_resolution_default: "parse_resolution ''1920x1080'' = (Num 1920, Num 1080)"
  by (simp add: parse_resolution_def parseInt10_def is_space_def is_digit_def digits_value_def)

lemma open_page_web_default [simp]:
  "open_page (web anchors reachable) (cli ''1920x1080'' dmax m f) u"
  by (simp add: open_page_def web_def cli_def parse_resolution_default viewport_ok_def)

lemma save_capture_web [simp]:
  "save_capture (web anchors reachable) (cli res dmax m f) u = (origin_of_url u \<noteq> None)"
  by (simp add: save_capture_def web_def cli_def)

lemma web_simps [simp]:
  "page_goto (web anchors reachable) = reachable"
  "new_URL (web anchors reachable) = origin_of_url"
  "page_hrefs (web anchors reachable) u = Some (anchors u)"
  "browser_close (web anchors reachable) u = True"
  by (simp_all add: web_def)

lemma cli_simps [simp]:
  "depth (cli res dmax m f) = dmax"
  "maxPages (cli res dmax m f) = m"
  "followExternal (cli res dmax m f) = f"
  "resolution (cli res dmax m f) = res"
  by (simp_all add: cli_def)

lemmas eval_crawl =
  run_def takeScreenshots_unfold origin_of_url_def findLinks_def findLinks_step_def
  captured_def claim_def log_event_def failed_def set_add_def close_browser_def


subsection \<open>Comparisons and the cap\<close>

lemma int_le_less_lt: "int_le a x \<Longrightarrow> b < a \<Longrightarrow> int_lt b x"
  by (cases x) simp_all

lemma int_le_not_gt: "int_le a x \<Longrightarrow> b \<le> a \<Longrightarrow> \<not> int_gt b x"
  by (cases x) simp_all

lemma int_le_not_ge: "int_le a x \<Longrightarrow> b < a \<Longrightarrow> \<not> int_ge b x"
  by (cases x) simp_all

lemma visit_links_none_allowed: "state_of (visit_links 0 w c ls s d) = s"
  by (induction ls) simp_all

text \<open>Once the cap is reached, each call of the loop is rejected with the same size.\<close>

lemma visit_links_full_rejects:
  "int_ge (int (length (visited s))) (maxPages c) \<Longrightarrow>
     e \<in> set (trace (state_of (visit_links (Suc n) w c ls s d))) \<Longrightarrow>
     e \<in> set (trace s) \<or> (\<exists>l. e = Rejected l (d + 1) (length (visited s)))"
proof (induction ls arbitrary: s)
  case Nil
  then show ?case by simp
next
  case (Cons l ls)
  let ?s' = "log_event (Rejected l (d + 1) (length (visited s))) s"
  have "\<not> expands w c l s (d + 1)" using Cons.prems(1) by (simp add: expands_def)
  then have call: "takeScreenshots (Suc n) w c l s (d + 1) = Returned ?s'"
    using Cons.prems(1) by (subst takeScreenshots_stops) simp_all
  have full: "int_ge (int (length (visited ?s'))) (maxPages c)" using Cons.prems(1) by simp
  show ?case
  proof (cases "l \<in> set (visited s)")
    case True
    then show ?thesis using Cons.IH [OF Cons.prems(1)] Cons.prems(2) by simp
  next
    case False
    then have "e \<in> set (trace (state_of (visit_links (Suc n) w c ls ?s' d)))"
      using Cons.prems(2) call by simp
    then have "e \<in> set (trace ?s') \<or> (\<exists>l. e = Rejected l (d + 1) (length (visited ?s')))"
      by (rule Cons.IH [OF full])
    then show ?thesis by auto
  qed
qed

lemma below_ceiling: "\<not> x \<le> real n \<Longrightarrow> 1 + int n \<le> \<lceil>x\<rceil>"
proof -
  assume "\<not> x \<le> real n"
  then have "of_int (int n) < x" by simp
  then have "int n < \<lceil>x\<rceil>" by (simp only: less_ceiling_iff)
  then show ?thesis by simp
qed

lemma callable_ceiling:
  assumes "callable c d" and "depth c = Finite x"
  shows "d = 1 \<or> (2 \<le> d \<and> d \<le> \<lceil>x\<rceil>)"
proof (cases "d = 1")
  case True
  then show ?thesis by simp
next
  case False
  then have "1 < d" and "of_int (d - 1) < x"
    using assms by (auto simp: callable_def)
  then have "d - 1 < \<lceil>x\<rceil>" by (simp only: less_ceiling_iff)
  then show ?thesis using \<open>1 < d\<close> by simp
qed

section \<open>The claims\<close>

subsection \<open>C1: links kept by the filter and the origin of the parent page\<close>

text \<open>
  C1 says that with \<^verbatim>\<open>followExternal = false\<close> every child task accepted by the link filter
  has the origin of the page on which its link was found. The filter of line 251 does not
  compare origins: it tests whether the link starts with the text of the parent's origin.
  At the parent \<^verbatim>\<open>https://a.test/\<close>, whose origin is \<^verbatim>\<open>https://a.test\<close>, the link
  \<^verbatim>\<open>https://a.test.evil.example/x\<close> of origin \<^verbatim>\<open>https://a.test.evil.example\<close> passes the
  filter, and the run, which returns, claims it as a child at depth 2.
\<close>

theorem findLinks_keeps_foreign_origin:
  "findLinks [''https://a.test.evil.example/x''] ''https://a.test'' False
     = [''https://a.test.evil.example/x'']
   \<and> origin_of_url ''https://a.test/'' = Some ''https://a.test''
   \<and> origin_of_url ''https://a.test.evil.example/x'' = Some ''https://a.test.evil.example''
   \<and> returned (run (2 + k) web_lookalike (cli ''1920x1080'' (Finite 2) (Finite 10) False)
         ''https://a.test/'')
   \<and> claims (trace (state_of
         (run (2 + k) web_lookalike (cli ''1920x1080'' (Finite 2) (Finite 10) False)
            ''https://a.test/'')))
     = [(''https://a.test/'', 1, 1), (''https://a.test.evil.example/x'', 2, 2)]"
proof -
  have "run 2 web_lookalike (cli ''1920x1080'' (Finite 2) (Finite 10) False) ''https://a.test/''
      = Returned
          \<lparr>visited = [''https://a.test/'', ''https://a.test.evil.example/x''],
           trace = [Claimed ''https://a.test/'' 1 1, Goto ''https://a.test/'',
             Captured ''https://a.test/'', FindLinks ''https://a.test/'' ''https://a.test'',
             Claimed ''https://a.test.evil.example/x'' 2 2,
             Goto ''https://a.test.evil.example/x'',
             Captured ''https://a.test.evil.example/x'']\<rparr>"
    by (simp add: eval_crawl web_lookalike_def)
  from run_more_calls_allowed [OF this, of k] show ?thesis
    by (simp add: origin_of_url_def findLinks_def findLinks_step_def set_add_def)
qed

theorem findLinks_keeps_foreign_origin_witness:
  "(''https://a.test.evil.example/x'', 2, 2)
     \<in> set (claims (trace (state_of
         (run 2 web_lookalike (cli ''1920x1080'' (Finite 2) (Finite 10) False)
            ''https://a.test/''))))"
  using findLinks_keeps_foreign_origin [of 0] by simp

subsection \<open>C2: the page cap\<close>

text \<open>
  C2 says that the visited set never has more than \<open>M\<close> elements. \<^verbatim>\<open>maxPages\<close> is an
  unchecked number of the command line, and the guard of line 276 lets a task in while
  the size is below it. With \<^verbatim>\<open>--maxPages 1.5\<close> a second URL is claimed at size 1, and the
  set ends with 2 elements; with \<^verbatim>\<open>--maxPages abc\<close> the cap is \<^verbatim>\<open>NaN\<close> and the guard never
  holds; with \<^verbatim>\<open>--maxPages -1\<close> nothing is claimed and the size 0 is above \<open>M\<close>.
\<close>

theorem cap_exceeded:
  "visited (state_of (run 2 web_B (cli ''1920x1080'' (Finite 2) (Finite (3 / 2)) False)
       ''https://a.test/'')) = [''https://a.test/'', ''https://a.test/x'']
   \<and> \<not> int_le 2 (maxPages (cli ''1920x1080'' (Finite 2) (Finite (3 / 2)) False))
   \<and> visited (state_of (run 2 web_B (cli ''1920x1080'' (Finite 2) NotANumber False)
       ''https://a.test/'')) = [''https://a.test/'', ''https://a.test/x'']
   \<and> \<not> int_le 2 (maxPages (cli ''1920x1080'' (Finite 2) NotANumber False))
   \<and> visited (state_of (run 2 web_B (cli ''1920x1080'' (Finite 2) (Finite (- 1)) False)
       ''https://a.test/'')) = []
   \<and> \<not> int_le 0 (maxPages (cli ''1920x1080'' (Finite 2) (Finite (- 1)) False))"
  by (simp add: eval_crawl web_B_def)

text \<open>
  C2 as amended. The set is empty at the start and changes at line 281 only; each
  \<open>Claimed\<close> event carries the size just after the change. In every state a run reaches:
  the size before each insertion was below \<open>M\<close> in the sense of line 276; when \<open>M\<close> is
  finite, every size is at most the ceiling of \<open>M\<close>, or 0 when \<open>M\<close> is negative, hence
  at most \<open>M\<close> when \<open>M\<close> is a whole number that is not negative; when \<open>M\<close> is
  \<^verbatim>\<open>-Infinity\<close> the set stays empty; when \<open>M\<close> is \<^verbatim>\<open>NaN\<close> or \<^verbatim>\<open>Infinity\<close> the guard puts no
  cap on the size: no call is rejected because of the cap. A call returns at the guard
  only when the cap is reached or the depth is above \<open>D\<close>. With \<open>M = 1\<close> the seed is the only URL ever claimed (nothing is claimed
  when the seed is deeper than \<open>D\<close>), and every call for a child is rejected at the guard
  because the cap is reached.
\<close>

theorem visited_within_cap:
  "(\<forall>(u, d, k) \<in> set (claims (trace (state_of (run n w c seed)))).
       \<not> int_ge (int k - 1) (maxPages c))
   \<and> (\<forall>x. maxPages c = Finite x \<longrightarrow>
         (\<forall>(u, d, k) \<in> set (claims (trace (state_of (run n w c seed)))). int k \<le> \<lceil>x\<rceil>)
         \<and> int (length (visited (state_of (run n w c seed)))) \<le> max 0 \<lceil>x\<rceil>)
   \<and> (\<forall>m. maxPages c = Finite (of_int m) \<longrightarrow>
         (\<forall>(u, d, k) \<in> set (claims (trace (state_of (run n w c seed)))). int k \<le> m)
         \<and> int (length (visited (state_of (run n w c seed)))) \<le> max 0 m)
   \<and> (maxPages c = MinusInfinity \<longrightarrow> visited (state_of (run n w c seed)) = [])
   \<and> (\<forall>u d k. Rejected u d k \<in> set (trace (state_of (run n w c seed))) \<longrightarrow>
         int_ge (int k) (maxPages c) \<or> int_gt d (depth c))
   \<and> (maxPages c = NotANumber \<or> maxPages c = PlusInfinity \<longrightarrow>
         (\<forall>u d k. Rejected u d k \<in> set (trace (state_of (run n w c seed))) \<longrightarrow>
            \<not> int_ge (int k) (maxPages c) \<and> int_gt d (depth c)))
   \<and> (maxPages c = Finite 1 \<and> 1 \<le> n \<longrightarrow>
         claims (trace (state_of (run n w c seed)))
           = (if int_gt 1 (depth c) then [] else [(seed, 1, 1)])
         \<and> visited (state_of (run n w c seed)) = (if int_gt 1 (depth c) then [] else [seed])
         \<and> (\<forall>u d k. Rejected u d k \<in> set (trace (state_of (run n w c seed))) \<longrightarrow>
               d = 1 \<or> int_ge (int k) (maxPages c)))"
proof -
  let ?r = "state_of (run n w c seed)"
  have below: "\<forall>(u, d, k) \<in> set (claims (trace ?r)). \<not> int_ge (int k - 1) (maxPages c)"
    by (rule run_preserves
          [where I = "\<lambda>s. \<forall>(u, d, k) \<in> set (claims (trace s)). \<not> int_ge (int k - 1) (maxPages c)"])
       (auto simp: set_add_fresh)
  have finite: "(\<forall>(u, d, k) \<in> set (claims (trace ?r)). int k \<le> \<lceil>x\<rceil>)
      \<and> int (length (visited ?r)) \<le> max 0 \<lceil>x\<rceil>"
    if "maxPages c = Finite x" for x
    using that
    by (intro run_preserves
          [where I = "\<lambda>s. (\<forall>(u, d, k) \<in> set (claims (trace s)). int k \<le> \<lceil>x\<rceil>)
                         \<and> int (length (visited s)) \<le> max 0 \<lceil>x\<rceil>"])
       (auto simp: set_add_fresh dest: below_ceiling)
  have whole: "(\<forall>(u, d, k) \<in> set (claims (trace ?r)). int k \<le> m)
      \<and> int (length (visited ?r)) \<le> max 0 m"
    if "maxPages c = Finite (of_int m)" for m
    using finite [OF that] by simp
  have none: "visited ?r = []" if "maxPages c = MinusInfinity"
    using that
    by (intro run_preserves [where I = "\<lambda>s. visited s = []"]) auto
  have guard: "\<forall>u d k. Rejected u d k \<in> set (trace ?r) \<longrightarrow>
      int_ge (int k) (maxPages c) \<or> int_gt d (depth c)"
    by (rule run_preserves
          [where I = "\<lambda>s. \<forall>u d k. Rejected u d k \<in> set (trace s) \<longrightarrow>
                         int_ge (int k) (maxPages c) \<or> int_gt d (depth c)"])
       auto
  have uncapped: "\<forall>u d k. Rejected u d k \<in> set (trace ?r) \<longrightarrow>
      \<not> int_ge (int k) (maxPages c) \<and> int_gt d (depth c)"
    if "maxPages c = NotANumber \<or> maxPages c = PlusInfinity"
  proof (intro allI impI)
    fix u d k
    assume "Rejected u d k \<in> set (trace ?r)"
    then have "int_ge (int k) (maxPages c) \<or> int_gt d (depth c)" using guard by blast
    moreover have "\<not> int_ge (int k) (maxPages c)" using that by auto
    ultimately show "\<not> int_ge (int k) (maxPages c) \<and> int_gt d (depth c)" by simp
  qed
  have one: "claims (trace ?r) = (if int_gt 1 (depth c) then [] else [(seed, 1, 1)])
      \<and> visited ?r = (if int_gt 1 (depth c) then [] else [seed])
      \<and> (\<forall>u d k. Rejected u d k \<in> set (trace ?r) \<longrightarrow> d = 1 \<or> int_ge (int k) (maxPages c))"
    if M: "maxPages c = Finite 1" and n: "1 \<le> n"
  proof -
    let ?s0 = "\<lparr>visited = [], trace = []\<rparr>"
    obtain m where m: "n = Suc m" using n by (cases n) simp_all
    show ?thesis
    proof (cases "expands w c seed ?s0 1")
      case False
      then show ?thesis
        unfolding run_def m using M
        by (subst (1 2 3) takeScreenshots_stops) (auto simp: set_add_def close_browser_def)
    next
      case True
      then obtain base hs where eq: "takeScreenshots (Suc m) w c seed ?s0 1 =
         (case visit_links m w c (findLinks hs base (followExternal c))
                 (log_event (FindLinks seed base) (captured seed 1 ?s0)) 1 of
            Running s' \<Rightarrow> Running s'
          | Returned s' \<Rightarrow> Returned (close_browser w seed s'))"
        by (rule takeScreenshots_expands)
      let ?ls = "findLinks hs base (followExternal c)"
      let ?s1 = "log_event (FindLinks seed base) (captured seed 1 ?s0)"
      let ?v = "visit_links m w c ?ls ?s1 1"
      have shallow: "\<not> int_gt 1 (depth c)" using True by (simp add: expands_def)
      have v1: "visited ?s1 = [seed]" by (simp add: set_add_def)
      have full: "int_ge (int (length (visited ?s1))) (maxPages c)" using M v1 by simp
      have loop: "visited (state_of ?v) = [seed]
          \<and> claims (trace (state_of ?v)) = [(seed, 1, 1)]
          \<and> (\<forall>u d k. Rejected u d k \<in> set (trace (state_of ?v)) \<longrightarrow> int_ge (int k) (maxPages c))"
      proof (cases m)
        case 0
        then show ?thesis by (simp add: visit_links_none_allowed set_add_def)
      next
        case (Suc j)
        have "visited (state_of ?v) = visited ?s1
            \<and> claims (trace (state_of ?v)) = claims (trace ?s1)"
          unfolding Suc using visit_links_full [OF full] by blast
        moreover have "int_ge (int k) (maxPages c)"
          if "Rejected u d k \<in> set (trace (state_of ?v))" for u d k
          using visit_links_full_rejects [OF full, of "Rejected u d k" j w ?ls 1] that M
          unfolding Suc by (auto simp: set_add_def)
        ultimately show ?thesis by (simp add: set_add_def)
      qed
      show ?thesis
        unfolding run_def m eq using loop shallow
        by (cases ?v) (auto simp: close_browser_def)
    qed
  qed
  show ?thesis
    using below finite whole none guard uncapped one by blast
qed

theorem visited_within_cap_witness:
  "visited (state_of (run 2 web_B (cli ''1920x1080'' (Finite 2) (Finite 1) False)
       ''https://a.test/'')) = [''https://a.test/'']
   \<and> claims (trace (state_of (run 2 web_B (cli ''1920x1080'' (Finite 2) (Finite 1) False)
       ''https://a.test/''))) = [(''https://a.test/'', 1, 1)]
   \<and> Rejected ''https://a.test/x'' 2 1
     \<in> set (trace (state_of (run 2 web_B (cli ''1920x1080'' (Finite 2) (Finite 1) False)
         ''https://a.test/'')))
   \<and> int (length (visited (state_of (run 2 web_B (cli ''1920x1080'' (Finite 2) (Finite 1) False)
       ''https://a.test/'')))) \<le> 1
   \<and> int (length (visited (state_of
       (run 2 web_B (cli ''1920x1080'' (Finite 2) (Finite (3 / 2)) False) ''https://a.test/''))))
     \<le> 2"
proof -
  let ?c1 = "cli ''1920x1080'' (Finite 2) (Finite 1) False"
  let ?c2 = "cli ''1920x1080'' (Finite 2) (Finite (3 / 2)) False"
  have "Rejected ''https://a.test/x'' 2 1
     \<in> set (trace (state_of (run 2 web_B ?c1 ''https://a.test/'')))"
    by (simp add: eval_crawl web_B_def)
  moreover have "visited (state_of (run 2 web_B ?c1 ''https://a.test/'')) = [''https://a.test/'']
      \<and> claims (trace (state_of (run 2 web_B ?c1 ''https://a.test/'')))
        = [(''https://a.test/'', 1, 1)]"
    using visited_within_cap [of 2 web_B ?c1 "''https://a.test/''"] by simp
  moreover have "int (length (visited (state_of (run 2 web_B ?c2 ''https://a.test/'')))) \<le> 2"
  proof -
    have "maxPages ?c2 = Finite (3 / 2)" by simp
    with visited_within_cap [of 2 web_B ?c2 "''https://a.test/''"]
    have "int (length (visited (state_of (run 2 web_B ?c2 ''https://a.test/''))))
        \<le> max 0 \<lceil>3 / 2 :: real\<rceil>"
      by blast
    moreover have "\<lceil>3 / 2 :: real\<rceil> = 2" by (simp add: ceiling_eq_iff)
    ultimately show ?thesis by simp
  qed
  ultimately show ?thesis by simp
qed

subsection \<open>C3: no URL is rendered twice\<close>

text \<open>
  C3: in every run each URL is rendered at most once. In every state a run reaches,
  returned or still running, the URLs handed to \<^verbatim>\<open>page.goto\<close> so far are pairwise
  different and all of them are in the visited set; the URLs claimed by line 281 are, in
  order, the visited set itself, which has no duplicate: a URL is inserted once, when it
  is not yet a member, and a member is never claimed or rendered again.
\<close>

theorem rendered_at_most_once:
  "distinct (gotos (trace (state_of (run n w c seed))))
   \<and> set (gotos (trace (state_of (run n w c seed)))) \<subseteq> set (visited (state_of (run n w c seed)))
   \<and> map fst (claims (trace (state_of (run n w c seed)))) = visited (state_of (run n w c seed))
   \<and> distinct (visited (state_of (run n w c seed)))"
  by (rule run_preserves
        [where I = "\<lambda>s. distinct (gotos (trace s)) \<and> set (gotos (trace s)) \<subseteq> set (visited s)
                       \<and> map fst (claims (trace s)) = visited s \<and> distinct (visited s)"])
     (auto simp: set_add_fresh)

theorem rendered_at_most_once_witness:
  "gotos (trace (state_of (run 3 web_B (cli ''1920x1080'' (Finite 3) (Finite 10) False)
       ''https://a.test/''))) = [''https://a.test/'', ''https://a.test/x'']
   \<and> distinct (gotos (trace (state_of
         (run 3 web_B (cli ''1920x1080'' (Finite 3) (Finite 10) False) ''https://a.test/''))))"
  using rendered_at_most_once
    [of 3 web_B "cli ''1920x1080'' (Finite 3) (Finite 10) False" "''https://a.test/''"]
  by (simp add: eval_crawl web_B_def)

subsection \<open>C4: the depth of a task\<close>

text \<open>
  C4 says that every task has a depth between 1 and \<open>D\<close>, that a task at depth \<open>D\<close>
  spawns no children, and that with \<open>D = 1\<close> exactly one task, the seed, is processed and
  the link filter is never called. A task is a call of \<^verbatim>\<open>takeScreenshots\<close>, and \<^verbatim>\<open>depth\<close> is
  an unchecked number of the command line. With \<^verbatim>\<open>--depth 1.5\<close> line 299 lets the seed
  expand (1 is below 1.5), and its child is called at depth 2, above \<open>D\<close>. With
  \<^verbatim>\<open>--depth 0\<close> the seed is called at depth 1, above \<open>D\<close>. With \<^verbatim>\<open>--depth abc\<close> the depth is
  \<^verbatim>\<open>NaN\<close>, the guard lets the seed in, and the seed is claimed at a depth that is not
  below or equal to \<open>D\<close>.
\<close>

theorem depth_bound_exceeded:
  "calls (trace (state_of (run 2 web_B (cli ''1920x1080'' (Finite (3 / 2)) (Finite 10) False)
       ''https://a.test/''))) = [(''https://a.test/'', 1), (''https://a.test/x'', 2)]
   \<and> \<not> int_le 2 (depth (cli ''1920x1080'' (Finite (3 / 2)) (Finite 10) False))
   \<and> calls (trace (state_of (run 2 web_B (cli ''1920x1080'' (Finite 0) (Finite 10) False)
       ''https://a.test/''))) = [(''https://a.test/'', 1)]
   \<and> \<not> int_le 1 (depth (cli ''1920x1080'' (Finite 0) (Finite 10) False))
   \<and> claims (trace (state_of (run 2 web_B (cli ''1920x1080'' NotANumber (Finite 10) False)
       ''https://a.test/''))) = [(''https://a.test/'', 1, 1)]
   \<and> \<not> int_le 1 (depth (cli ''1920x1080'' NotANumber (Finite 10) False))"
  by (simp add: eval_crawl web_B_def)

text \<open>
  C4 as amended. In every state a run reaches: every task that passes the guard has a
  depth of at least 1 that is not above \<open>D\<close> in the sense of line 276, so it is at most
  \<open>D\<close> unless \<open>D\<close> is \<^verbatim>\<open>NaN\<close>; every call is at depth 1, for the seed, or at one more than
  a depth below \<open>D\<close>, for a child. Hence, when \<open>D\<close> is a whole number and \<open>1 \<le> D\<close>, every
  call, rejected or not, has \<open>1 \<le> d \<le> D\<close>; when \<open>D\<close> is finite, the calls for children
  have depths from 2 to the ceiling of \<open>D\<close>, and those above \<open>D\<close> are rejected at the
  guard; when the seed is above \<open>D\<close>, the run is the one call for the seed, rejected at
  the guard. A call at a depth that is not below \<open>D\<close> returns without any further call
  and without calling \<^verbatim>\<open>findLinks\<close>. With \<open>D = 1\<close>, and also when \<open>D\<close> is \<^verbatim>\<open>NaN\<close>, the run
  is one call, for the seed, which is claimed when the cap lets it in, and \<^verbatim>\<open>findLinks\<close>
  is never called.
\<close>

theorem task_depth_bounds:
  "(\<forall>(u, d, k) \<in> set (claims (trace (state_of (run n w c seed)))).
       1 \<le> d \<and> \<not> int_gt d (depth c))
   \<and> (\<forall>(u, d) \<in> set (calls (trace (state_of (run n w c seed)))). callable c d)
   \<and> (\<forall>m. depth c = Finite (of_int m) \<and> 1 \<le> m \<longrightarrow>
         (\<forall>(u, d) \<in> set (calls (trace (state_of (run n w c seed)))). 1 \<le> d \<and> d \<le> m))
   \<and> (\<forall>x. depth c = Finite x \<longrightarrow>
         (\<forall>(u, d) \<in> set (calls (trace (state_of (run n w c seed)))).
            d = 1 \<or> (2 \<le> d \<and> d \<le> \<lceil>x\<rceil>)))
   \<and> (int_gt 1 (depth c) \<and> 1 \<le> n \<longrightarrow>
         run n w c seed = Returned \<lparr>visited = [], trace = [Rejected seed 1 0]\<rparr>)
   \<and> (\<forall>m s u d. \<not> int_lt d (depth c) \<longrightarrow>
         returned (takeScreenshots (Suc m) w c u s d)
         \<and> calls (trace (state_of (takeScreenshots (Suc m) w c u s d))) = calls (trace s) @ [(u, d)]
         \<and> findlinks_calls (trace (state_of (takeScreenshots (Suc m) w c u s d)))
             = findlinks_calls (trace s))
   \<and> ((depth c = Finite 1 \<or> depth c = NotANumber) \<and> 1 \<le> n \<longrightarrow>
         returned (run n w c seed)
         \<and> calls (trace (state_of (run n w c seed))) = [(seed, 1)]
         \<and> findlinks_calls (trace (state_of (run n w c seed))) = []
         \<and> (\<not> int_ge 0 (maxPages c) \<longrightarrow>
               claims (trace (state_of (run n w c seed))) = [(seed, 1, 1)]))"
proof -
  let ?r = "state_of (run n w c seed)"
  let ?s0 = "\<lparr>visited = [], trace = []\<rparr>"
  have claimed: "\<forall>(u, d, k) \<in> set (claims (trace ?r)). 1 \<le> d \<and> \<not> int_gt d (depth c)"
    by (rule run_preserves
          [where I = "\<lambda>s. \<forall>(u, d, k) \<in> set (claims (trace s)). 1 \<le> d \<and> \<not> int_gt d (depth c)"])
       (auto simp: callable_def)
  have called: "\<forall>(u, d) \<in> set (calls (trace ?r)). callable c d"
    by (rule run_preserves [where I = "\<lambda>s. \<forall>(u, d) \<in> set (calls (trace s)). callable c d"])
       auto
  have finite: "\<forall>(u, d) \<in> set (calls (trace ?r)). d = 1 \<or> (2 \<le> d \<and> d \<le> \<lceil>x\<rceil>)"
    if "depth c = Finite x" for x
    using called callable_ceiling [OF _ that] by fastforce
  have whole: "\<forall>(u, d) \<in> set (calls (trace ?r)). 1 \<le> d \<and> d \<le> m"
    if "depth c = Finite (of_int m) \<and> 1 \<le> m" for m
    using finite [of "of_int m"] that by fastforce
  have shallow: "run n w c seed = Returned \<lparr>visited = [], trace = [Rejected seed 1 0]\<rparr>"
    if "int_gt 1 (depth c) \<and> 1 \<le> n"
    using that by (simp add: run_def takeScreenshots_unfold log_event_def)
  have leaf: "returned (takeScreenshots (Suc m) w c u s d)
      \<and> calls (trace (state_of (takeScreenshots (Suc m) w c u s d))) = calls (trace s) @ [(u, d)]
      \<and> findlinks_calls (trace (state_of (takeScreenshots (Suc m) w c u s d)))
          = findlinks_calls (trace s)"
    if "\<not> int_lt d (depth c)" for m s u d
    using takeScreenshots_leaf [OF that] by simp
  have one: "returned (run n w c seed)
      \<and> calls (trace ?r) = [(seed, 1)]
      \<and> findlinks_calls (trace ?r) = []
      \<and> (\<not> int_ge 0 (maxPages c) \<longrightarrow> claims (trace ?r) = [(seed, 1, 1)])"
    if D: "(depth c = Finite 1 \<or> depth c = NotANumber) \<and> 1 \<le> n"
  proof -
    obtain m where m: "n = Suc m" using D by (cases n) simp_all
    have stop: "\<not> int_lt 1 (depth c)" and pass: "\<not> int_gt 1 (depth c)" using D by auto
    have "\<not> int_ge 0 (maxPages c) \<longrightarrow> claims (trace ?r) = [(seed, 1, 1)]"
      using takeScreenshots_leaf_claim(2) [of ?s0 c 1 m w seed] stop pass
      by (simp add: run_def m set_add_def)
    then show ?thesis
      using leaf [OF stop, of m seed ?s0] by (simp add: run_def m)
  qed
  show ?thesis
    using claimed called whole finite shallow leaf one by blast
qed

theorem task_depth_bounds_witness:
  "calls (trace (state_of (run 1 web_B (cli ''1920x1080'' (Finite 1) (Finite 10) False)
       ''https://a.test/''))) = [(''https://a.test/'', 1)]
   \<and> findlinks_calls (trace (state_of
       (run 1 web_B (cli ''1920x1080'' (Finite 1) (Finite 10) False) ''https://a.test/''))) = []
   \<and> claims (trace (state_of (run 1 web_B (cli ''1920x1080'' (Finite 1) (Finite 10) False)
       ''https://a.test/''))) = [(''https://a.test/'', 1, 1)]
   \<and> calls (trace (state_of (run 2 web_B (cli ''1920x1080'' (Finite 2) (Finite 10) False)
       ''https://a.test/''))) = [(''https://a.test/'', 1), (''https://a.test/x'', 2)]
   \<and> (1::int) \<le> 2 \<and> (2::int) \<le> 2"
proof -
  let ?c1 = "cli ''1920x1080'' (Finite 1) (Finite 10) False"
  let ?c2 = "cli ''1920x1080'' (Finite 2) (Finite 10) False"
  have two: "calls (trace (state_of (run 2 web_B ?c2 ''https://a.test/'')))
      = [(''https://a.test/'', 1), (''https://a.test/x'', 2)]"
    by (simp add: eval_crawl web_B_def)
  have "depth ?c2 = Finite (of_int 2) \<and> (1::int) \<le> 2" by simp
  with task_depth_bounds [of 2 web_B ?c2 "''https://a.test/''"]
  have "\<forall>(u, d) \<in> set (calls (trace (state_of (run 2 web_B ?c2 ''https://a.test/'')))).
      1 \<le> d \<and> d \<le> 2"
    by blast
  then have "(1::int) \<le> 2 \<and> (2::int) \<le> 2" using two by simp
  then show ?thesis
    using task_depth_bounds [of 1 web_B ?c1 "''https://a.test/''"] two by simp
qed

subsection \<open>C5: termination\<close>




subsection \<open>C6: scenario B\<close>

text \<open>
  C6: seed \<^verbatim>\<open>https://a.test/\<close>, depth 2, at most 10 pages, \<^verbatim>\<open>followExternal = false\<close>, and
  the seed page, once rendered, has the anchors \<^verbatim>\<open>https://a.test/x\<close>, \<^verbatim>\<open>https://a.test/x\<close>
  and \<^verbatim>\<open>https://b.test/y\<close>. Then the filter keeps one link, \<^verbatim>\<open>https://a.test/x\<close>, the run
  returns (it nests two calls), and after the seed exactly one child is claimed, for that
  URL: the tasks claimed in the run are the seed at depth 1 and \<^verbatim>\<open>https://a.test/x\<close> at
  depth 2, whatever the page of the child looks like.
\<close>

theorem scenario_B_one_child:
  assumes "depth c = Finite 2" and "maxPages c = Finite 10" and "\<not> followExternal c"
    and "open_page w c ''https://a.test/''" and "page_goto w ''https://a.test/''"
    and "save_capture w c ''https://a.test/''"
    and "new_URL w ''https://a.test/'' = Some ''https://a.test''"
    and "page_hrefs w ''https://a.test/''
           = Some [''https://a.test/x'', ''https://a.test/x'', ''https://b.test/y'']"
  shows "findLinks [''https://a.test/x'', ''https://a.test/x'', ''https://b.test/y'']
           ''https://a.test'' (followExternal c) = [''https://a.test/x'']
       \<and> returned (run (2 + k) w c ''https://a.test/'')
       \<and> claims (trace (state_of (run (2 + k) w c ''https://a.test/'')))
           = [(''https://a.test/'', 1, 1), (''https://a.test/x'', 2, 2)]
       \<and> visited (state_of (run (2 + k) w c ''https://a.test/''))
           = [''https://a.test/'', ''https://a.test/x'']"
proof -
  let ?s0 = "\<lparr>visited = [], trace = []\<rparr>"
  let ?s1 = "log_event (FindLinks ''https://a.test/'' ''https://a.test'')
               (captured ''https://a.test/'' 1 ?s0)"
  let ?child = "takeScreenshots (Suc k) w c ''https://a.test/x'' ?s1 2"
  have links: "findLinks [''https://a.test/x'', ''https://a.test/x'', ''https://b.test/y'']
           ''https://a.test'' (followExternal c) = [''https://a.test/x'']"
    using assms(3) by (simp add: findLinks_def findLinks_step_def set_add_def)
  have links_f: "findLinks [''https://a.test/x'', ''https://a.test/x'', ''https://b.test/y'']
           ''https://a.test'' False = [''https://a.test/x'']"
    using links assms(3) by simp
  have v1: "visited ?s1 = [''https://a.test/'']" by (simp add: set_add_def)
  have c1: "claims (trace ?s1) = [(''https://a.test/'', 1, 1)]" by (simp add: set_add_def)
  have room: "\<not> int_ge (int (length (visited ?s1))) (maxPages c)" using assms(2) v1 by simp
  have deep: "\<not> int_gt 2 (depth c)" and leaf: "\<not> int_lt 2 (depth c)" using assms(1) by simp_all
  have "returned ?child" using leaf by (rule takeScreenshots_leaf(3))
  then obtain s2 where s2: "?child = Returned s2" by (cases ?child) simp_all
  have "visited (state_of ?child) = [''https://a.test/'', ''https://a.test/x'']"
    using takeScreenshots_leaf_claim(1) [OF room deep leaf, of k w "''https://a.test/x''"] v1
    by (simp add: set_add_def)
  then have v2: "visited s2 = [''https://a.test/'', ''https://a.test/x'']" using s2 by simp
  have "claims (trace (state_of ?child))
          = [(''https://a.test/'', 1, 1), (''https://a.test/x'', 2, 2)]"
    using takeScreenshots_leaf_claim(2) [OF room deep leaf, of k w "''https://a.test/x''"] v1 c1
    by (simp add: set_add_def)
  then have c2: "claims (trace s2) = [(''https://a.test/'', 1, 1), (''https://a.test/x'', 2, 2)]"
    using s2 by simp
  have fuel: "2 + k = Suc (Suc k)" by simp
  have run_eq: "run (2 + k) w c ''https://a.test/'' = Returned (close_browser w ''https://a.test/'' s2)"
    unfolding run_def fuel
    by (subst takeScreenshots.simps(2)) (simp add: assms links_f v1 s2 del: visited_log_event)
  show ?thesis
    using links run_eq v2 c2 by simp
qed

theorem scenario_B_one_child_witness:
  "returned (run 2 web_B (cli ''1920x1080'' (Finite 2) (Finite 10) False) ''https://a.test/'')
   \<and> claims (trace (state_of
        (run 2 web_B (cli ''1920x1080'' (Finite 2) (Finite 10) False) ''https://a.test/'')))
     = [(''https://a.test/'', 1, 1), (''https://a.test/x'', 2, 2)]
   \<and> visited (state_of
        (run 2 web_B (cli ''1920x1080'' (Finite 2) (Finite 10) False) ''https://a.test/''))
     = [''https://a.test/'', ''https://a.test/x'']"
  using scenario_B_one_child [of "cli ''1920x1080'' (Finite 2) (Finite 10) False" web_B 0]
  by (simp add: web_B_def origin_of_url_def)

subsection \<open>C7: a render failure stays in its task\<close>

text \<open>
  C7. A task that passes the guard and whose page cannot be opened, reached or captured
  ends in the \<^verbatim>\<open>catch\<close>: its URL is claimed, the error is logged, and the call returns
  without looking for links and without any further call. The loop of the parent goes on:
  when it has returned, every link of the page is in the visited set or was rejected at
  the guard, whatever happened to the links before it. Scenario D: the seed is rendered
  and yields the links \<open>a\<close> and \<open>b\<close>; \<open>a\<close> is claimed and its rendering fails. Then, in
  every run that may nest two calls or more, the error for \<open>a\<close> is logged, the artifact
  of the seed is kept, and \<open>takeScreenshots\<close> is still called for \<open>b\<close> at depth 2; \<open>b\<close> is
  claimed as third URL when the cap leaves room for it.
\<close>

theorem render_failure_is_local:
  "(\<not> int_ge (int (length (visited s))) (maxPages c) \<and> \<not> int_gt d (depth c)
      \<and> \<not> (open_page w c u \<and> page_goto w u \<and> save_capture w c u) \<longrightarrow>
      takeScreenshots (Suc n) w c u s d
        = Returned
            (failed u (if open_page w c u then log_event (Goto u) (claim u d s) else claim u d s)))
   \<and> (visit_links n w c ls s d = Returned s' \<longrightarrow>
        (\<forall>l \<in> set ls. l \<in> set (visited s') \<or> (\<exists>k. Rejected l (d + 1) k \<in> set (trace s'))))
   \<and> (open_page w c seed \<and> page_goto w seed \<and> save_capture w c seed
      \<and> new_URL w seed = Some base \<and> page_hrefs w seed = Some hs
      \<and> findLinks hs base (followExternal c) = [a, b] \<and> a \<noteq> seed \<and> b \<noteq> seed
      \<and> \<not> (open_page w c a \<and> page_goto w a \<and> save_capture w c a)
      \<and> int_le 2 (depth c) \<and> int_le 2 (maxPages c) \<longrightarrow>
      Failed a \<in> set (trace (state_of (run (2 + j) w c seed)))
      \<and> Captured seed \<in> set (trace (state_of (run (2 + j) w c seed)))
      \<and> (b, 2) \<in> set (calls (trace (state_of (run (2 + j) w c seed))))
      \<and> (int_le 3 (maxPages c) \<longrightarrow>
            (b, 2, 3) \<in> set (claims (trace (state_of (run (2 + j) w c seed))))))"
proof -
  have local: "takeScreenshots (Suc m) w c u s d
        = Returned
            (failed u (if open_page w c u then log_event (Goto u) (claim u d s) else claim u d s))"
    if "\<not> int_ge (int (length (visited s))) (maxPages c)" and "\<not> int_gt d (depth c)"
      and "\<not> (open_page w c u \<and> page_goto w u \<and> save_capture w c u)"
    for u s d m
    using that by (subst takeScreenshots.simps(2)) auto
  have siblings: "\<forall>l \<in> set ls. l \<in> set (visited s') \<or> (\<exists>k. Rejected l (d + 1) k \<in> set (trace s'))"
    if "visit_links n w c ls s d = Returned s'"
    using visit_links_every_link [OF that] by blast
  have scenario: "Failed a \<in> set (trace (state_of (run (2 + j) w c seed)))
      \<and> Captured seed \<in> set (trace (state_of (run (2 + j) w c seed)))
      \<and> (b, 2) \<in> set (calls (trace (state_of (run (2 + j) w c seed))))
      \<and> (int_le 3 (maxPages c) \<longrightarrow>
            (b, 2, 3) \<in> set (claims (trace (state_of (run (2 + j) w c seed)))))"
    if ok: "open_page w c seed" "page_goto w seed" "save_capture w c seed"
      and page: "new_URL w seed = Some base" "page_hrefs w seed = Some hs"
        "findLinks hs base (followExternal c) = [a, b]"
      and ne: "a \<noteq> seed" "b \<noteq> seed"
      and bad: "\<not> (open_page w c a \<and> page_goto w a \<and> save_capture w c a)"
      and lim: "int_le 2 (depth c)" "int_le 2 (maxPages c)"
  proof -
    let ?s0 = "\<lparr>visited = [], trace = []\<rparr>"
    let ?s1 = "log_event (FindLinks seed base) (captured seed 1 ?s0)"
    let ?s2 = "failed a (if open_page w c a then log_event (Goto a) (claim a 2 ?s1)
                         else claim a 2 ?s1)"
    let ?p3 = "takeScreenshots (Suc j) w c b ?s2 2"
    let ?s3 = "state_of ?p3"
    have "distinct (findLinks hs base (followExternal c))"
      by (simp add: findLinks_def findLinks_foldl(2))
    then have ab: "a \<noteq> b" using page(3) by simp
    have v1: "visited ?s1 = [seed]" by (simp add: set_add_def)
    have seed_in: "\<not> int_ge (int (length (visited ?s0))) (maxPages c)" "\<not> int_gt 1 (depth c)"
      "int_lt 1 (depth c)"
      using lim int_le_not_ge [of 2 "maxPages c" 0] int_le_not_gt [of 2 "depth c" 1]
        int_le_less_lt [of 2 "depth c" 1]
      by simp_all
    have a_in: "\<not> int_ge (int (length (visited ?s1))) (maxPages c)" "\<not> int_gt 2 (depth c)"
      using lim v1 int_le_not_ge [of 2 "maxPages c" 1] int_le_not_gt [of 2 "depth c" 2]
      by simp_all
    have a_call: "takeScreenshots (Suc j) w c a ?s1 2 = Returned ?s2"
      using local [OF a_in bad] by simp
    have v2: "visited ?s2 = [seed, a]" using v1 ne by (simp add: set_add_def)
    have fuel: "2 + j = Suc (Suc j)" by simp
    have run_eq: "run (2 + j) w c seed =
        (case ?p3 of Running s' \<Rightarrow> Running s' | Returned s' \<Rightarrow> Returned (close_browser w seed s'))"
      unfolding run_def fuel using ok page seed_in ne ab v1 v2 a_call
      by (subst takeScreenshots.simps(2))
         (simp del: visited_log_event visited_failed split: progress.splits)
    have st: "trace (state_of (run (2 + j) w c seed))
        = trace ?s3 @ (if returned ?p3 \<and> \<not> browser_close w seed then [Failed seed] else [])"
      unfolding run_eq by (cases ?p3) simp_all
    have sub: "set (trace ?s2) \<subseteq> set (trace ?s3)"
      using trace_grows(1) [of ?s2 "Suc j" w c b 2] by (rule set_mono_prefix)
    have "Failed a \<in> set (trace ?s2)" and "Captured seed \<in> set (trace ?s2)" by auto
    then have kept: "Failed a \<in> set (trace ?s3)" "Captured seed \<in> set (trace ?s3)"
      using sub by blast+
    have called: "(b, 2) \<in> set (calls (trace ?s3))"
      by (rule takeScreenshots_calls_self)
    have claimed: "(b, 2, 3) \<in> set (claims (trace ?s3))" if "int_le 3 (maxPages c)"
    proof -
      have "\<not> (int_ge (int (length (visited ?s2))) (maxPages c) \<or> int_gt 2 (depth c))"
        using that a_in(2) v2 int_le_not_ge [of 3 "maxPages c" 2] by simp
      moreover have "length (set_add b (visited ?s2)) = 3"
        using v2 ne ab by (simp add: set_add_def)
      ultimately obtain tr where "trace ?s3 = trace ?s2 @ Claimed b 2 3 # tr"
        using takeScreenshots_first_event [of j w c b ?s2 2] by auto
      then show ?thesis by simp
    qed
    show ?thesis
      using st kept called claimed by auto
  qed
  show ?thesis
    using local siblings scenario by blast
qed

theorem render_failure_is_local_witness:
  "Failed ''https://a.test/down''
     \<in> set (trace (state_of
         (run 2 web_D (cli ''1920x1080'' (Finite 2) (Finite 10) False) ''https://a.test/'')))
   \<and> Captured ''https://a.test/''
     \<in> set (trace (state_of
         (run 2 web_D (cli ''1920x1080'' (Finite 2) (Finite 10) False) ''https://a.test/'')))
   \<and> (''https://a.test/up'', 2)
     \<in> set (calls (trace (state_of
         (run 2 web_D (cli ''1920x1080'' (Finite 2) (Finite 10) False) ''https://a.test/''))))
   \<and> (''https://a.test/up'', 2, 3)
     \<in> set (claims (trace (state_of
         (run 2 web_D (cli ''1920x1080'' (Finite 2) (Finite 10) False) ''https://a.test/''))))"
proof -
  have links: "findLinks [''https://a.test/down'', ''https://a.test/up''] ''https://a.test'' False
      = [''https://a.test/down'', ''https://a.test/up'']"
    by (simp add: findLinks_def findLinks_step_def set_add_def)
  show ?thesis
    using render_failure_is_local
      [of _ "cli ''1920x1080'' (Finite 2) (Finite 10) False" _ web_D _ _ _ _
          "''https://a.test/''" "''https://a.test''"
          "[''https://a.test/down'', ''https://a.test/up'']"
          "''https://a.test/down''" "''https://a.test/up''" 0]
      links
    by (simp add: web_D_def origin_of_url_def)
qed

subsection \<open>C8: an invalid resolution string\<close>

text \<open>
  C8 says that an invalid resolution string raises a fatal error that aborts the run
  before the seed is claimed. The script never validates the string: line 284 parses it
  inside the \<^verbatim>\<open>try\<close> block of each task, after line 281 has claimed the URL. With the
  resolution \<^verbatim>\<open>abc\<close> the width is \<^verbatim>\<open>NaN\<close> and the height \<^verbatim>\<open>undefined\<close>; in a browser that
  refuses such a viewport the seed is claimed, the error is logged by the \<^verbatim>\<open>catch\<close> of the
  task, and the run returns.
\<close>

theorem invalid_resolution_seed_claimed:
  "parse_resolution ''abc'' = (NaN, Undefined)
   \<and> run 1 web_B (cli ''abc'' (Finite 1) (Finite 10) False) ''https://a.test/''
     = Returned \<lparr>visited = [''https://a.test/''],
        trace = [Claimed ''https://a.test/'' 1 1, Failed ''https://a.test/'']\<rparr>"
proof -
  have p: "parse_resolution ''abc'' = (NaN, Undefined)"
    by (simp add: parse_resolution_def parseInt10_def is_space_def is_digit_def)
  then have "\<not> open_page web_B (cli ''abc'' (Finite 1) (Finite 10) False) ''https://a.test/''"
    by (simp add: open_page_def web_B_def web_def viewport_ok_def)
  then show ?thesis
    using p by (simp add: eval_crawl)
qed

text \<open>
  C8 as amended. Whatever the resolution string is, a run in which the guard of line 276
  lets the seed in, as it does when \<open>1 \<le> M\<close> and \<open>1 \<le> D\<close>, claims the seed first. When
  the browser refuses the viewport that line 284 reads from the string, the failure is
  the failure of that task: the run returns, and it is the claim of the seed followed by
  the error logged at line 311, and nothing else.
\<close>

theorem resolution_not_validated:
  "(\<not> int_ge 0 (maxPages c) \<and> \<not> int_gt 1 (depth c) \<longrightarrow>
      (\<exists>tr. trace (state_of (run (Suc n) w c seed)) = Claimed seed 1 1 # tr)
      \<and> seed \<in> set (visited (state_of (run (Suc n) w c seed))))
   \<and> (\<not> int_ge 0 (maxPages c) \<and> \<not> int_gt 1 (depth c)
      \<and> \<not> page_setViewport w (fst (parse_resolution (resolution c)))
            (snd (parse_resolution (resolution c))) \<longrightarrow>
      run (Suc n) w c seed
        = Returned \<lparr>visited = [seed], trace = [Claimed seed 1 1, Failed seed]\<rparr>)
   \<and> (int_le 1 (maxPages c) \<and> int_le 1 (depth c) \<longrightarrow>
        \<not> int_ge 0 (maxPages c) \<and> \<not> int_gt 1 (depth c))"
proof -
  let ?s0 = "\<lparr>visited = [], trace = []\<rparr>"
  have first: "(\<exists>tr. trace (state_of (run (Suc n) w c seed)) = Claimed seed 1 1 # tr)
      \<and> seed \<in> set (visited (state_of (run (Suc n) w c seed)))"
    if "\<not> int_ge 0 (maxPages c)" and "\<not> int_gt 1 (depth c)"
  proof -
    have "\<exists>tr. trace (state_of (run (Suc n) w c seed)) = Claimed seed 1 1 # tr"
      using takeScreenshots_first_event [of n w c seed ?s0 1] that
      by (simp add: run_def set_add_def)
    moreover have "seed \<in> set (visited (state_of (run (Suc n) w c seed)))"
      using takeScreenshots_visited_self [of ?s0 c 1 seed n w] that by (simp add: run_def)
    ultimately show ?thesis by simp
  qed
  have refused: "run (Suc n) w c seed
      = Returned \<lparr>visited = [seed], trace = [Claimed seed 1 1, Failed seed]\<rparr>"
    if "\<not> int_ge 0 (maxPages c)" and "\<not> int_gt 1 (depth c)"
      and "\<not> page_setViewport w (fst (parse_resolution (resolution c)))
            (snd (parse_resolution (resolution c)))"
  proof -
    have "\<not> open_page w c seed"
      using that(3) by (auto simp: open_page_def split: prod.splits)
    then show ?thesis
      using that(1,2)
      by (simp add: run_def takeScreenshots.simps(2) claim_def failed_def log_event_def
            set_add_def)
  qed
  have usual: "\<not> int_ge 0 (maxPages c) \<and> \<not> int_gt 1 (depth c)"
    if "int_le 1 (maxPages c) \<and> int_le 1 (depth c)"
    using that int_le_not_ge [of 1 "maxPages c" 0] int_le_not_gt [of 1 "depth c" 1] by simp
  show ?thesis
    using first refused usual by blast
qed

theorem resolution_not_validated_witness:
  "run 1 web_B (cli ''1920x'' (Finite 1) (Finite 10) False) ''https://a.test/''
     = Returned \<lparr>visited = [''https://a.test/''],
        trace = [Claimed ''https://a.test/'' 1 1, Failed ''https://a.test/'']\<rparr>
   \<and> ''https://a.test/''
       \<in> set (visited (state_of
            (run 1 web_B (cli ''1920x'' (Finite 1) (Finite 10) False) ''https://a.test/'')))"
proof -
  let ?c = "cli ''1920x'' (Finite 1) (Finite 10) False"
  have "parse_resolution ''1920x'' = (Num 1920, NaN)"
    by (simp add: parse_resolution_def parseInt10_def is_space_def is_digit_def digits_value_def)
  then have "\<not> page_setViewport web_B (fst (parse_resolution (resolution ?c)))
            (snd (parse_resolution (resolution ?c)))"
    by (simp add: web_B_def web_def viewport_ok_def)
  then show ?thesis
    using resolution_not_validated [of ?c 0 web_B "''https://a.test/''"]
    by simp
qed

subsection \<open>C9: a URL is claimed before it is rendered\<close>

text \<open>
  C9: line 281 inserts the URL before anything of the rendering is tried. In every state
  a run reaches, returned or still running, each call of \<^verbatim>\<open>page.goto\<close> for a URL comes
  after the claim of that URL; a URL for which the \<^verbatim>\<open>catch\<close> logged an error is in the
  visited set, and stays there, since the set only grows; the claimed URLs are the
  visited set, without duplicate, so a failed URL takes one place and is not claimed a
  second time; the number of claimed URLs, failed ones included, is at most the ceiling
  of \<open>M\<close> (or 0 when \<open>M\<close> is negative) for a finite \<open>M\<close>, hence at most \<open>max 0 M\<close> for a
  whole \<open>M\<close>; and a URL whose opening, navigation or capture fails has no artifact.
\<close>

theorem failed_url_stays_claimed:
  "(\<forall>pre u post. trace (state_of (run n w c seed)) = pre @ Goto u # post \<longrightarrow>
       (\<exists>d k. Claimed u d k \<in> set pre))
   \<and> (\<forall>u. Failed u \<in> set (trace (state_of (run n w c seed)))
         \<longrightarrow> u \<in> set (visited (state_of (run n w c seed))))
   \<and> map fst (claims (trace (state_of (run n w c seed)))) = visited (state_of (run n w c seed))
   \<and> distinct (visited (state_of (run n w c seed)))
   \<and> (\<forall>x. maxPages c = Finite x \<longrightarrow>
         int (length (claims (trace (state_of (run n w c seed))))) \<le> max 0 \<lceil>x\<rceil>)
   \<and> (\<forall>m. maxPages c = Finite (of_int m) \<longrightarrow>
         int (length (claims (trace (state_of (run n w c seed))))) \<le> max 0 m)
   \<and> (\<forall>u. \<not> (open_page w c u \<and> page_goto w u \<and> save_capture w c u) \<longrightarrow>
         Captured u \<notin> set (trace (state_of (run n w c seed))))"
proof -
  have order: "\<forall>pre u post. trace (state_of (run n w c seed)) = pre @ Goto u # post \<longrightarrow>
       (\<exists>d k. Claimed u d k \<in> set pre)"
  proof (rule run_preserves
      [where I = "\<lambda>s. \<forall>pre u post. trace s = pre @ Goto u # post \<longrightarrow>
                     (\<exists>d k. Claimed u d k \<in> set pre)"])
    fix s :: crawl_state and u :: string and d :: int
    assume I: "\<forall>pre u post. trace s = pre @ Goto u # post \<longrightarrow> (\<exists>d k. Claimed u d k \<in> set pre)"
    let ?n = "length (set_add u (visited s))"
    have I1: "\<forall>pre v post. trace s @ [Claimed u d ?n] = pre @ Goto v # post \<longrightarrow>
        (\<exists>d k. Claimed v d k \<in> set pre)"
      using goto_after_claim_snoc [OF I, of "Claimed u d ?n"] by simp
    have I2: "\<forall>pre v post. (trace s @ [Claimed u d ?n]) @ [Goto u] = pre @ Goto v # post \<longrightarrow>
        (\<exists>d k. Claimed v d k \<in> set pre)"
      by (rule goto_after_claim_snoc [OF I1]) auto
    have I3: "\<forall>pre v post. ((trace s @ [Claimed u d ?n]) @ [Goto u]) @ [Captured u]
          = pre @ Goto v # post \<longrightarrow> (\<exists>d k. Claimed v d k \<in> set pre)"
      by (rule goto_after_claim_snoc [OF I2]) auto
    show "\<forall>pre v post. trace (claim u d s) = pre @ Goto v # post \<longrightarrow>
        (\<exists>d k. Claimed v d k \<in> set pre)"
      using I1 by simp
    show "\<forall>pre v post. trace (log_event (Goto u) (claim u d s)) = pre @ Goto v # post \<longrightarrow>
        (\<exists>d k. Claimed v d k \<in> set pre)"
      using I2 by simp
    show "\<forall>pre v post. trace (captured u d s) = pre @ Goto v # post \<longrightarrow>
        (\<exists>d k. Claimed v d k \<in> set pre)"
      using I3 by simp
    show "\<forall>pre v post. trace (log_event (Rejected u d (length (visited s))) s)
          = pre @ Goto v # post \<longrightarrow> (\<exists>d k. Claimed v d k \<in> set pre)"
      using goto_after_claim_snoc [OF I, of "Rejected u d (length (visited s))"] by simp
    show "\<forall>pre v post. trace (failed u s) = pre @ Goto v # post \<longrightarrow>
        (\<exists>d k. Claimed v d k \<in> set pre)"
      using goto_after_claim_snoc [OF I, of "Failed u"] by simp
    show "\<forall>pre v post. trace (log_event (FindLinks u b) s) = pre @ Goto v # post \<longrightarrow>
        (\<exists>d k. Claimed v d k \<in> set pre)" for b
      using goto_after_claim_snoc [OF I, of "FindLinks u b"] by simp
  qed (simp_all add: Cons_eq_append_conv)
  have kept: "\<forall>u. Failed u \<in> set (trace (state_of (run n w c seed)))
      \<longrightarrow> u \<in> set (visited (state_of (run n w c seed)))"
    by (rule run_preserves
          [where I = "\<lambda>s. \<forall>u. Failed u \<in> set (trace s) \<longrightarrow> u \<in> set (visited s)"])
       auto
  have once: "map fst (claims (trace (state_of (run n w c seed))))
        = visited (state_of (run n w c seed))
      \<and> distinct (visited (state_of (run n w c seed)))"
    by (rule run_preserves
          [where I = "\<lambda>s. map fst (claims (trace s)) = visited s \<and> distinct (visited s)"])
       (auto simp: set_add_fresh)
  have len: "length (claims (trace (state_of (run n w c seed))))
      = length (visited (state_of (run n w c seed)))"
    using once by (metis length_map)
  have counted: "int (length (claims (trace (state_of (run n w c seed))))) \<le> max 0 \<lceil>x\<rceil>"
    if "maxPages c = Finite x" for x
  proof -
    have "int (length (visited (state_of (run n w c seed)))) \<le> max 0 \<lceil>x\<rceil>"
      using that
      by (intro run_preserves [where I = "\<lambda>s. int (length (visited s)) \<le> max 0 \<lceil>x\<rceil>"])
         (auto simp: set_add_fresh dest: below_ceiling)
    then show ?thesis using len by simp
  qed
  have whole: "int (length (claims (trace (state_of (run n w c seed))))) \<le> max 0 m"
    if "maxPages c = Finite (of_int m)" for m
    using counted [OF that] by simp
  have no_artifact: "\<forall>u. \<not> (open_page w c u \<and> page_goto w u \<and> save_capture w c u) \<longrightarrow>
         Captured u \<notin> set (trace (state_of (run n w c seed)))"
    by (rule run_preserves
          [where I = "\<lambda>s. \<forall>u. \<not> (open_page w c u \<and> page_goto w u \<and> save_capture w c u) \<longrightarrow>
                         Captured u \<notin> set (trace s)"])
       auto
  show ?thesis
    using order kept once counted whole no_artifact by blast
qed

theorem failed_url_stays_claimed_witness:
  "run 2 web_D (cli ''1920x1080'' (Finite 2) (Finite 2) False) ''https://a.test/'' =
     Returned
       \<lparr>visited = [''https://a.test/'', ''https://a.test/down''],
        trace = [Claimed ''https://a.test/'' 1 1, Goto ''https://a.test/'',
          Captured ''https://a.test/'', FindLinks ''https://a.test/'' ''https://a.test'',
          Claimed ''https://a.test/down'' 2 2, Goto ''https://a.test/down'',
          Failed ''https://a.test/down'', Rejected ''https://a.test/up'' 2 2]\<rparr>
   \<and> ''https://a.test/down''
       \<in> set (visited (state_of
            (run 2 web_D (cli ''1920x1080'' (Finite 2) (Finite 2) False) ''https://a.test/'')))
   \<and> Captured ''https://a.test/down''
       \<notin> set (trace (state_of
            (run 2 web_D (cli ''1920x1080'' (Finite 2) (Finite 2) False) ''https://a.test/'')))"
proof -
  let ?c = "cli ''1920x1080'' (Finite 2) (Finite 2) False"
  have r: "run 2 web_D ?c ''https://a.test/'' =
     Returned
       \<lparr>visited = [''https://a.test/'', ''https://a.test/down''],
        trace = [Claimed ''https://a.test/'' 1 1, Goto ''https://a.test/'',
          Captured ''https://a.test/'', FindLinks ''https://a.test/'' ''https://a.test'',
          Claimed ''https://a.test/down'' 2 2, Goto ''https://a.test/down'',
          Failed ''https://a.test/down'', Rejected ''https://a.test/up'' 2 2]\<rparr>"
    by (simp add: eval_crawl web_D_def)
  have "\<not> page_goto web_D ''https://a.test/down''" by (simp add: web_D_def)
  then show ?thesis
    using failed_url_stays_claimed [of 2 web_D ?c "''https://a.test/''"] r
    by simp
qed

subsection \<open>C10: URLs are compared as strings\<close>

text \<open>
  C10: the per-page set of \<^verbatim>\<open>findLinks\<close> and the visited set compare URLs as plain
  strings. \<^verbatim>\<open>findLinks\<close> keeps a link exactly when it passes the two prefix tests, once for
  each distinct string, with no normalisation; and in a run whose seed \<^verbatim>\<open>https://a.test/\<close>
  links to itself with a fragment and with a query, and to \<^verbatim>\<open>https://a.test/x\<close> with and
  without a trailing slash, the run returns (it nests two calls) and all four links are
  claimed and handed to \<^verbatim>\<open>page.goto\<close>, next to the seed.
\<close>

theorem urls_compared_as_strings:
  "set (findLinks hs base fe) = {h \<in> set hs. startsWith h ''http'' \<and> (fe \<or> startsWith h base)}
   \<and> distinct (findLinks hs base fe)
   \<and> returned (run (2 + k) web_variants (cli ''1920x1080'' (Finite 2) (Finite 10) False)
        ''https://a.test/'')
   \<and> visited (state_of (run (2 + k) web_variants
        (cli ''1920x1080'' (Finite 2) (Finite 10) False) ''https://a.test/''))
     = [''https://a.test/'', ''https://a.test/#top'', ''https://a.test/?q=1'',
        ''https://a.test/x'', ''https://a.test/x/'']
   \<and> gotos (trace (state_of (run (2 + k) web_variants
        (cli ''1920x1080'' (Finite 2) (Finite 10) False) ''https://a.test/'')))
     = [''https://a.test/'', ''https://a.test/#top'', ''https://a.test/?q=1'',
        ''https://a.test/x'', ''https://a.test/x/'']"
proof -
  let ?c = "cli ''1920x1080'' (Finite 2) (Finite 10) False"
  let ?s = "\<lparr>visited = [''https://a.test/'', ''https://a.test/#top'', ''https://a.test/?q=1'',
        ''https://a.test/x'', ''https://a.test/x/''],
       trace = [Claimed ''https://a.test/'' 1 1, Goto ''https://a.test/'',
         Captured ''https://a.test/'', FindLinks ''https://a.test/'' ''https://a.test'',
         Claimed ''https://a.test/#top'' 2 2, Goto ''https://a.test/#top'',
         Captured ''https://a.test/#top'',
         Claimed ''https://a.test/?q=1'' 2 3, Goto ''https://a.test/?q=1'',
         Captured ''https://a.test/?q=1'',
         Claimed ''https://a.test/x'' 2 4, Goto ''https://a.test/x'',
         Captured ''https://a.test/x'',
         Claimed ''https://a.test/x/'' 2 5, Goto ''https://a.test/x/'',
         Captured ''https://a.test/x/'']\<rparr>"
  have "set (findLinks hs base fe)
      = {h \<in> set hs. startsWith h ''http'' \<and> (fe \<or> startsWith h base)}"
    by (simp add: findLinks_def findLinks_foldl(1))
  moreover have "distinct (findLinks hs base fe)"
    by (simp add: findLinks_def findLinks_foldl(2))
  moreover have "run 2 web_variants ?c ''https://a.test/'' = Returned ?s"
    by (simp add: eval_crawl web_variants_def)
  then have "run (2 + k) web_variants ?c ''https://a.test/'' = Returned ?s"
    by (rule run_more_calls_allowed)
  ultimately show ?thesis by simp
qed

theorem urls_compared_as_strings_witness:
  "set (findLinks [''https://a.test/x'', ''https://a.test/x/'', ''https://a.test/x'']
          ''https://a.test'' False)
     = {''https://a.test/x'', ''https://a.test/x/''}
   \<and> length (visited (state_of (run 2 web_variants
        (cli ''1920x1080'' (Finite 2) (Finite 10) False) ''https://a.test/''))) = 5"
proof -
  have "{h \<in> set [''https://a.test/x'', ''https://a.test/x/'', ''https://a.test/x''].
          startsWith h ''http'' \<and> (False \<or> startsWith h ''https://a.test'')}
        = {''https://a.test/x'', ''https://a.test/x/''}"
    by auto
  then show ?thesis
    using urls_compared_as_strings
      [of "[''https://a.test/x'', ''https://a.test/x/'', ''https://a.test/x'']"
          "''https://a.test''" False 0]
    by simp
qed

end
